theory Spec2Isabelle
  imports Main "HOL-Library.Sublist" "HOL-Library.Multiset"
begin

section \<open>Library primitives used by \<^verbatim>\<open>lightning/mydump/reader.go\<close>\<close>

text \<open>
  A byte slice and a Go string are both a list of 8-bit characters. The Go library calls
  of the source (\<^verbatim>\<open>bytes.TrimSpace\<close>, \<^verbatim>\<open>bufio.Reader.ReadBytes\<close>, the regular
  expression, \<^verbatim>\<open>os.File\<close>) are given here by what they compute on such lists.
\<close>

subsection \<open>\<^verbatim>\<open>bytes.TrimSpace\<close> and \<^verbatim>\<open>strings.TrimSpace\<close>\<close>

text \<open>
  Go trims runes for which \<^verbatim>\<open>unicode.IsSpace\<close> holds, decoding UTF-8 from the left and
  then from the right. Every such rune has one well-formed encoding, and a decoder step
  (forwards or backwards) yields the rune exactly when that encoding is the prefix (the
  suffix) of the input; an ill-formed byte decodes to U+FFFD, which is no space. The
  encodings: TAB, LF, VT, FF, CR, SPACE, U+0085, U+00A0, U+1680, U+2000 .. U+200A, U+2028,
  U+2029, U+202F, U+205F, U+3000.
\<close>

definition spaceRunes :: "string list" where
  "spaceRunes =
    [[CHR 0x09], [CHR 0x0A], [CHR 0x0B], [CHR 0x0C], [CHR 0x0D], [CHR 0x20],
     [CHR 0xC2, CHR 0x85], [CHR 0xC2, CHR 0xA0],
     [CHR 0xE1, CHR 0x9A, CHR 0x80],
     [CHR 0xE2, CHR 0x80, CHR 0x80], [CHR 0xE2, CHR 0x80, CHR 0x81],
     [CHR 0xE2, CHR 0x80, CHR 0x82], [CHR 0xE2, CHR 0x80, CHR 0x83],
     [CHR 0xE2, CHR 0x80, CHR 0x84], [CHR 0xE2, CHR 0x80, CHR 0x85],
     [CHR 0xE2, CHR 0x80, CHR 0x86], [CHR 0xE2, CHR 0x80, CHR 0x87],
     [CHR 0xE2, CHR 0x80, CHR 0x88], [CHR 0xE2, CHR 0x80, CHR 0x89],
     [CHR 0xE2, CHR 0x80, CHR 0x8A],
     [CHR 0xE2, CHR 0x80, CHR 0xA8], [CHR 0xE2, CHR 0x80, CHR 0xA9],
     [CHR 0xE2, CHR 0x80, CHR 0xAF],
     [CHR 0xE2, CHR 0x81, CHR 0x9F],
     [CHR 0xE3, CHR 0x80, CHR 0x80]]"

definition leadingSpace :: "string \<Rightarrow> string option" where
  "leadingSpace s = find (\<lambda>e. prefix e s) spaceRunes"

definition trailingSpace :: "string \<Rightarrow> string option" where
  "trailingSpace s = find (\<lambda>e. suffix e s) spaceRunes"

lemma spaceRunes_nonempty: "e \<in> set spaceRunes \<Longrightarrow> e \<noteq> []"
  by (auto simp: spaceRunes_def)

lemma leadingSpace_Some: "leadingSpace s = Some e \<Longrightarrow> e \<in> set spaceRunes \<and> prefix e s"
  by (auto simp: leadingSpace_def find_Some_iff)

lemma trailingSpace_Some: "trailingSpace s = Some e \<Longrightarrow> e \<in> set spaceRunes \<and> suffix e s"
  by (auto simp: trailingSpace_def find_Some_iff)

lemma leadingSpace_shorter:
  assumes "leadingSpace s = Some e"
  shows "length (drop (length e) s) < length s"
proof -
  from assms have "e \<noteq> []" and "prefix e s"
    using leadingSpace_Some spaceRunes_nonempty by blast+
  then have "0 < length e" and "length e \<le> length s"
    by (simp_all add: prefix_length_le)
  then show ?thesis unfolding length_drop by linarith
qed

lemma trailingSpace_shorter:
  assumes "trailingSpace s = Some e"
  shows "length (take (length s - length e) s) < length s"
proof -
  from assms have "e \<noteq> []" and "suffix e s"
    using trailingSpace_Some spaceRunes_nonempty by blast+
  then have "0 < length e" and "length e \<le> length s"
    by (simp_all add: suffix_length_le)
  then show ?thesis unfolding length_take by linarith
qed

function TrimLeft :: "string \<Rightarrow> string" where
  "TrimLeft s = (case leadingSpace s of None \<Rightarrow> s | Some e \<Rightarrow> TrimLeft (drop (length e) s))"
  by pat_completeness auto
termination
  by (relation "measure length") (auto dest: leadingSpace_shorter)

function TrimRight :: "string \<Rightarrow> string" where
  "TrimRight s =
     (case trailingSpace s of None \<Rightarrow> s | Some e \<Rightarrow> TrimRight (take (length s - length e) s))"
  by pat_completeness auto
termination
  by (relation "measure length") (auto dest: trailingSpace_shorter)

declare TrimLeft.simps [simp del] TrimRight.simps [simp del]

definition TrimSpace :: "string \<Rightarrow> string" where
  "TrimSpace s = TrimRight (TrimLeft s)"

subsection \<open>\<^verbatim>\<open>bufio.Reader.ReadBytes('\n')\<close> and \<^verbatim>\<open>ReadString('\n')\<close>\<close>

text \<open>
  Reading a line from the unread bytes \<open>inp\<close>: the bytes up to and including the first
  newline, the bytes left, and whether the call reported \<^verbatim>\<open>io.EOF\<close> (no newline was
  found; the line then holds whatever was left, possibly nothing). The result does not
  depend on the capacity of the buffered reader.
\<close>

definition ReadBytes :: "string \<Rightarrow> string \<times> string \<times> bool" where
  "ReadBytes inp =
     (case dropWhile (\<lambda>c. c \<noteq> CHR 0x0A) inp of
        [] \<Rightarrow> (inp, [], True)
      | c # rest \<Rightarrow> (takeWhile (\<lambda>c. c \<noteq> CHR 0x0A) inp @ [c], rest, False))"

lemma ReadBytes_shorter:
  assumes "ReadBytes inp = (line, rest, False)"
  shows "length rest < length inp"
proof -
  have "length (dropWhile (\<lambda>c. c \<noteq> CHR 0x0A) inp) \<le> length inp"
    by (rule length_dropWhile_le)
  with assms show ?thesis
    by (auto simp: ReadBytes_def split: list.splits)
qed

lemma ReadBytes_append:
  assumes "ReadBytes inp = (line, rest, e)"
  shows "inp = line @ rest"
proof (cases "dropWhile (\<lambda>c. c \<noteq> CHR 0x0A) inp")
  case Nil
  with assms show ?thesis by (simp add: ReadBytes_def)
next
  case (Cons c cs)
  have "takeWhile (\<lambda>c. c \<noteq> CHR 0x0A) inp @ dropWhile (\<lambda>c. c \<noteq> CHR 0x0A) inp = inp"
    by (rule takeWhile_dropWhile_id)
  with Cons assms show ?thesis by (auto simp: ReadBytes_def)
qed

subsection \<open>The regular expression \<^verbatim>\<open>(?i)INSERT INTO .* VALUES\<close>\<close>

text \<open>
  \<^verbatim>\<open>regexp.FindStringIndex\<close> returns the leftmost match, and among the matches that start
  there the one its greedy star prefers: the longest run of \<^verbatim>\<open>.\<close> after which
  \<^verbatim>\<open> VALUES\<close> still matches. \<^verbatim>\<open>.\<close> matches any rune but a newline (an ill-formed byte
  counts as one rune). Under \<^verbatim>\<open>(?i)\<close> a letter matches the runes of its simple case-folding
  orbit: its upper and lower case, and for S also U+017F (bytes C5 BF), for K also U+212A
  (bytes E2 84 AA). The literals of the pattern start with an ASCII byte, and an ASCII byte
  is never inside the encoding of another rune, so matching can go byte by byte.
\<close>

definition isUpper :: "char \<Rightarrow> bool" where
  "isUpper c = ((65::nat) \<le> of_char c \<and> (of_char c :: nat) \<le> 90)"

definition toLower :: "char \<Rightarrow> char" where
  "toLower c = (if isUpper c then char_of (of_char c + (32::nat)) else c)"

definition foldOrbit :: "char \<Rightarrow> string list" where
  "foldOrbit p =
     (if isUpper p then
        [[p], [toLower p]] @
        (if p = CHR ''S'' then [[CHR 0xC5, CHR 0xBF]] else []) @
        (if p = CHR ''K'' then [[CHR 0xE2, CHR 0x84, CHR 0xAA]] else [])
      else [[p]])"

text \<open>The number of bytes of the rune at the head of \<open>s\<close> that matches pattern character \<open>p\<close>.\<close>

definition matchChar :: "char \<Rightarrow> string \<Rightarrow> nat option" where
  "matchChar p s = map_option length (find (\<lambda>e. prefix e s) (foldOrbit p))"

fun matchLit :: "string \<Rightarrow> string \<Rightarrow> nat option" where
  "matchLit [] s = Some 0"
| "matchLit (p # ps) s =
     (case matchChar p s of
        None \<Rightarrow> None
      | Some n \<Rightarrow> (case matchLit ps (drop n s) of None \<Rightarrow> None | Some m \<Rightarrow> Some (n + m)))"

text \<open>\<^verbatim>\<open>.* VALUES\<close> at the head of \<open>s\<close>, greedy: the number of bytes matched.\<close>

fun matchTail :: "string \<Rightarrow> nat option" where
  "matchTail [] = matchLit '' VALUES'' []"
| "matchTail (c # cs) =
     (if c = CHR 0x0A then matchLit '' VALUES'' (c # cs)
      else (case matchTail cs of
              Some n \<Rightarrow> Some (Suc n)
            | None \<Rightarrow> matchLit '' VALUES'' (c # cs)))"

definition matchAt :: "string \<Rightarrow> nat option" where
  "matchAt s =
     (case matchLit ''INSERT INTO '' s of
        None \<Rightarrow> None
      | Some n \<Rightarrow> (case matchTail (drop n s) of None \<Rightarrow> None | Some m \<Rightarrow> Some (n + m)))"

text \<open>\<^verbatim>\<open>insStmtRegex.FindStringIndex(line)\<close>: \<open>None\<close> is the nil slice, \<open>Some (a, b)\<close> is \<^verbatim>\<open>loc\<close>.\<close>

fun FindStringIndex :: "string \<Rightarrow> (nat \<times> nat) option" where
  "FindStringIndex [] = (case matchAt [] of Some n \<Rightarrow> Some (0, n) | None \<Rightarrow> None)"
| "FindStringIndex (c # cs) =
     (case matchAt (c # cs) of
        Some n \<Rightarrow> Some (0, n)
      | None \<Rightarrow> (case FindStringIndex cs of
                   Some (a, b) \<Rightarrow> Some (Suc a, Suc b)
                 | None \<Rightarrow> None))"

section \<open>Errors, panics and results\<close>

datatype error =
    EOF
  | ErrInsertStatementNotFound
  | errInvalidSchemaEncoding
  | UnsupportedEncoding string
  | DecoderError string
  | ErrNotExist
  | ErrInvalidSeek
  | ErrClosed

datatype panic =
    NilPointerDereference
  | SliceBoundsOutOfRange
  | MakesliceLenOutOfRange
  | MakesliceCapOutOfRange

text \<open>
  What a call does: it returns, or the goroutine panics, or the call never returns.
  \<^verbatim>\<open>errors.Trace\<close> only adds a stack trace; an error is identified here with its cause.
\<close>

datatype 'a outcome = Returns 'a | Panics panic | Hangs

datatype log_entry = UnexpectStart string | UnexpectEnd string

definition wrap64 :: "int \<Rightarrow> int" where
  "wrap64 x = (x + 2 ^ 63) mod 2 ^ 64 - 2 ^ 63"

text \<open>
  \<^verbatim>\<open>make([]byte, n)\<close> panics when \<open>n\<close> is negative or larger than the runtime's \<^verbatim>\<open>maxAlloc\<close>,
  \<open>2 ^ 48\<close> bytes on 64-bit Linux. Whether the machine has the memory for a smaller slice
  is outside the program; it is taken to have it.
\<close>

definition maxAlloc :: int where
  "maxAlloc = 2 ^ 48"

section \<open>Files\<close>

text \<open>
  The file system maps a path to the bytes of the file; dump files do not change while
  they are read. An \<^verbatim>\<open>*os.File\<close> is the bytes of the file it was opened on, its offset and
  whether it has been closed.
\<close>

type_synonym filesystem = "string \<Rightarrow> string option"

record os_File =
  content :: string
  fpos :: int
  closed :: bool

definition os_Open :: "filesystem \<Rightarrow> string \<Rightarrow> error + os_File" where
  "os_Open fs path =
     (case fs path of
        None \<Rightarrow> Inl ErrNotExist
      | Some c \<Rightarrow> Inr \<lparr>content = c, fpos = 0, closed = False\<rparr>)"

text \<open>\<^verbatim>\<open>fd.Seek(offset, io.SeekStart)\<close>: fails on a closed file and on a negative offset.\<close>

definition os_Seek :: "os_File \<Rightarrow> int \<Rightarrow> error + os_File" where
  "os_Seek h off =
     (if closed h then Inl ErrClosed
      else if off < 0 then Inl ErrInvalidSeek
      else Inr (h\<lparr>fpos := off\<rparr>))"

text \<open>\<^verbatim>\<open>fd.Close()\<close>: "Close will return an error if it has already been called."\<close>

definition os_Close :: "os_File \<Rightarrow> (error option \<times> os_File)" where
  "os_Close h = (if closed h then (Some ErrClosed, h) else (None, h\<lparr>closed := True\<rparr>))"

text \<open>The bytes a reader attached to the file at its current offset will see.\<close>

definition unread :: "os_File \<Rightarrow> string" where
  "unread h = drop (nat (fpos h)) (content h)"

text \<open>
  A buffered reader runs ahead of the bytes it hands out. When it has reported
  \<^verbatim>\<open>io.EOF\<close> the file offset is the end of the file (or unchanged, if it was already
  past the end).
\<close>

definition atEOF :: "os_File \<Rightarrow> os_File" where
  "atEOF h = h\<lparr>fpos := max (fpos h) (int (length (content h)))\<rparr>"

section \<open>Statement header detector\<close>

function headerLoop :: "string \<Rightarrow> string" where
  "headerLoop inp =
     (case ReadBytes inp of
        (line, rest, eof) \<Rightarrow>
          if eof then []
          else (case FindStringIndex line of
                  Some (a, b) \<Rightarrow> take (b - a) (drop a line)
                | None \<Rightarrow> headerLoop rest))"
  by pat_completeness auto
termination
  by (relation "measure length") (auto dest: ReadBytes_shorter [OF sym])

declare headerLoop.simps [simp del]

definition getInsertStatementHeader :: "filesystem \<Rightarrow> string \<Rightarrow> string" where
  "getInsertStatementHeader fs path =
     (case os_Open fs path of Inl e \<Rightarrow> [] | Inr f \<Rightarrow> headerLoop (content f))"

section \<open>Chunked statement reader\<close>

text \<open>
  \<open>buffer\<close> is the \<^verbatim>\<open>*bufio.Reader\<close>: \<open>None\<close> is nil, \<open>Some n\<close> a reader of capacity \<open>n\<close>.
  \<open>fd\<close> is the \<^verbatim>\<open>*os.File\<close>, \<open>None\<close> being nil.
\<close>

record MDDataReader =
  fd :: "os_File option"
  file_r :: string
  fsize :: int
  start :: int
  stmtHeader :: string
  bufferSize :: int
  buffer :: "int option"

text \<open>\<^verbatim>\<open>r.fd.Seek(0, io.SeekCurrent)\<close>, and \<open>-1\<close> when that fails.\<close>

definition currOffset :: "MDDataReader \<Rightarrow> int" where
  "currOffset r =
     (case fd r of None \<Rightarrow> - 1 | Some h \<Rightarrow> if closed h then - 1 else fpos h)"

definition MDDataReader_Tell :: "MDDataReader \<Rightarrow> int" where
  "MDDataReader_Tell r = currOffset r"

text \<open>
  The loop of \<^verbatim>\<open>skipAnnotation\<close> over the unread bytes: \<open>Some skipSize\<close> when it stops at
  a line that is no annotation, \<open>None\<close> when it stops at \<^verbatim>\<open>io.EOF\<close>.
\<close>

function skipLoop :: "string \<Rightarrow> nat \<Rightarrow> nat option" where
  "skipLoop inp skipSize =
     (case ReadBytes inp of
        (line0, rest, eof) \<Rightarrow>
          if eof then None
          else (let sz = length line0;
                    line = TrimSpace (take (sz - 1) line0)
                in if \<not> (prefix ''/*'' line \<and> suffix ''*/;'' line) then Some skipSize
                   else skipLoop rest (skipSize + sz)))"
  by pat_completeness auto
termination
  by (relation "measure (\<lambda>(inp, k). length inp)") (auto dest: ReadBytes_shorter [OF sym])

declare skipLoop.simps [simp del]

text \<open>
  How far the buffered reader of \<^verbatim>\<open>skipAnnotation\<close> has run ahead. A \<^verbatim>\<open>bufio.Reader\<close> of
  capacity \<open>cap\<close> holds the bytes from \<open>c\<close> (consumed) to \<open>f\<close> (fetched) of \<open>len\<close> bytes
  and is asked for the line that ends at \<open>e\<close>. While the newline is not in the buffer,
  \<^verbatim>\<open>ReadSlice\<close> hands out a full buffer as a fragment, or else \<^verbatim>\<open>fill\<close> tops the buffer
  up with one read of the file, which is taken to return all the bytes asked for, or
  all that are left. The result is the new \<open>f\<close>.
\<close>

function fetch :: "nat \<Rightarrow> nat \<Rightarrow> nat \<Rightarrow> nat \<Rightarrow> nat \<Rightarrow> nat" where
  "fetch cap len e c f =
     (if e \<le> f \<or> len \<le> f \<or> cap = 0 then f
      else if cap \<le> f - c then fetch cap len e f (min (f + cap) len)
      else fetch cap len e c (min (c + cap) len))"
  by pat_completeness auto
termination
  by (relation "measure (\<lambda>(cap, len, e, c, f). len - f)") auto

declare fetch.simps [simp del]

text \<open>
  The bytes fetched by \<^verbatim>\<open>bufio.NewReader\<close> (capacity 4096) once it has handed out the
  lines that cover \<open>skipSize\<close> bytes and one line more, the one at which the loop of
  \<^verbatim>\<open>skipAnnotation\<close> stops.
\<close>

function bufioAhead :: "nat \<Rightarrow> string \<Rightarrow> nat \<Rightarrow> nat \<Rightarrow> nat \<Rightarrow> nat" where
  "bufioAhead len inp skipSize c f =
     (case ReadBytes inp of
        (line, rest, eof) \<Rightarrow>
          (let e = c + length line; f' = fetch 4096 len e c f
           in if eof \<or> skipSize < e then f' else bufioAhead len rest skipSize e f'))"
  by pat_completeness auto
termination
  by (relation "measure (\<lambda>(len, inp, k, c, f). length inp)")
     (auto dest: ReadBytes_shorter [OF sym])

declare bufioAhead.simps [simp del]

text \<open>
  On a closed or nil file every read fails with an error other than \<^verbatim>\<open>io.EOF\<close> and an
  empty line, and \<^verbatim>\<open>line[:size-1]\<close> panics. The \<^verbatim>\<open>Seek\<close> of the source ignores its error;
  it can only fail here for a negative target, which leaves the file where the buffered
  reader stopped. Sums of byte counts of one file are exact: a file is shorter than
  \<open>2 ^ 63\<close> bytes.
\<close>

definition skipAnnotation :: "MDDataReader \<Rightarrow> int \<Rightarrow> (int \<times> MDDataReader) outcome" where
  "skipAnnotation r offset =
     (case fd r of
        None \<Rightarrow> Panics SliceBoundsOutOfRange
      | Some h \<Rightarrow>
          if closed h then Panics SliceBoundsOutOfRange
          else (case skipLoop (unread h) 0 of
                  None \<Rightarrow>
                    (let r' = r\<lparr>fd := Some (atEOF h)\<rparr> in Returns (currOffset r', r'))
                | Some skipSize \<Rightarrow>
                    (let offset1 = offset + int skipSize;
                         offset2 = (if offset1 > fsize r then fsize r else offset1);
                         ahead = bufioAhead (length (unread h)) (unread h) skipSize 0 0;
                         h' = (case os_Seek h offset2 of
                                 Inr h2 \<Rightarrow> h2
                               | Inl e \<Rightarrow> h\<lparr>fpos := fpos h + int ahead\<rparr>);
                         r' = r\<lparr>fd := Some h'\<rparr>
                     in Returns (currOffset r', r'))))"

text \<open>\<^verbatim>\<open>Seek\<close> does not move the file to \<open>offset\<close> before it skips annotations.\<close>

definition MDDataReader_Seek :: "MDDataReader \<Rightarrow> int \<Rightarrow> (int \<times> MDDataReader) outcome" where
  "MDDataReader_Seek r offset = skipAnnotation r offset"

definition NewMDDataReader ::
    "filesystem \<Rightarrow> string \<Rightarrow> int \<Rightarrow> (error + MDDataReader) outcome" where
  "NewMDDataReader fs path offset =
     (case os_Open fs path of
        Inl e \<Rightarrow> Returns (Inl e)
      | Inr f \<Rightarrow>
          (case os_Seek f offset of
             Inl e \<Rightarrow> Returns (Inl e)
           | Inr f1 \<Rightarrow>
               (let mdr = \<lparr>fd = Some f1, file_r = path, fsize = int (length (content f1)),
                           start = offset,
                           stmtHeader = getInsertStatementHeader fs path,
                           bufferSize = 0, buffer = None\<rparr>
                in if length (stmtHeader mdr) = 0 then Returns (Inl ErrInsertStatementNotFound)
                   else (case skipAnnotation mdr offset of
                           Returns (p, mdr') \<Rightarrow> Returns (Inr mdr')
                         | Panics p \<Rightarrow> Panics p
                         | Hangs \<Rightarrow> Hangs))))"

definition MDDataReader_Close :: "MDDataReader \<Rightarrow> error option \<times> MDDataReader" where
  "MDDataReader_Close r =
     (case fd r of
        Some h \<Rightarrow>
          (case os_Close h of
             (Some e, h') \<Rightarrow> (Some e, r\<lparr>fd := Some h'\<rparr>)
           | (None, h') \<Rightarrow> (None, r\<lparr>fd := Some h', bufferSize := 0, buffer := None\<rparr>))
      | None \<Rightarrow> (None, r\<lparr>bufferSize := 0, buffer := None\<rparr>))"

text \<open>
  \<^verbatim>\<open>bufio.NewReaderSize\<close> raises a capacity below 16 to 16 and allocates a buffer of that
  many bytes.
\<close>

definition acquireBufferReader :: "MDDataReader \<Rightarrow> int \<Rightarrow> MDDataReader outcome" where
  "acquireBufferReader r sz =
     (if sz > bufferSize r then
        (if maxAlloc < max 16 sz then Panics MakesliceLenOutOfRange
         else Returns (r\<lparr>bufferSize := sz, buffer := Some (max 16 sz)\<rparr>))
      else Returns r)"

subsection \<open>\<^verbatim>\<open>Read\<close>\<close>

text \<open>
  The closure \<^verbatim>\<open>appendSQL\<close>: the statements collected so far and the log lines written
  are passed in and returned. \<^verbatim>\<open>string(sql)[:10]\<close> and \<^verbatim>\<open>string(sql)[sqlLen-10:]\<close> panic
  when the statement has fewer than 10 bytes.
\<close>

definition appendSQL ::
    "string \<Rightarrow> string list \<times> log_entry list \<Rightarrow> string \<Rightarrow> (string list \<times> log_entry list) outcome"
where
  "appendSQL H acc sql0 =
     (let sql = TrimSpace sql0; sqlLen = length sql
      in if sqlLen \<noteq> 0 then
           if \<not> prefix H sql then
             (if sqlLen < 10 then Panics SliceBoundsOutOfRange
              else Returns (fst acc, snd acc @ [UnexpectStart (take 10 sql)]))
           else if sqlLen = length H then Returns acc
           else if \<not> suffix '';'' sql then
             (if suffix '','' sql then Returns (fst acc @ [butlast sql @ '';''], snd acc)
              else if sqlLen < 10 then Panics SliceBoundsOutOfRange
              else Returns (fst acc, snd acc @ [UnexpectEnd (drop (sqlLen - 10) sql)]))
           else Returns (fst acc @ [sql], snd acc)
         else Returns acc)"

definition isComment :: "string \<Rightarrow> bool" where
  "isComment line = (hd line = CHR ''/'' \<and> prefix ''/*'' line \<and> suffix ''*/'' line)"

text \<open>The body of the loop for a line that is not empty and no comment (lines 320 to 328).\<close>

definition processLine ::
    "string \<Rightarrow> string list \<times> log_entry list \<Rightarrow> string \<Rightarrow> string
      \<Rightarrow> ((string list \<times> log_entry list) \<times> string) outcome"
where
  "processLine H acc statement line =
     (let statement1 = (if length statement = 0 \<and> \<not> prefix H line
                        then statement @ H else statement);
          statement2 = statement1 @ line
      in if last statement2 = CHR '';'' then
           (case appendSQL H acc statement2 of
              Returns acc' \<Rightarrow> Returns (acc', [])
            | Panics p \<Rightarrow> Panics p
            | Hangs \<Rightarrow> Hangs)
         else Returns (acc, statement2))"

text \<open>
  The loop of \<^verbatim>\<open>Read\<close> over the unread bytes \<open>inp\<close>. It returns the statements and log
  lines, the statement under construction, and \<open>Some readSize\<close> when it left through the
  \<^verbatim>\<open>fd.Seek(beginPos+readSize)\<close> branch, \<open>None\<close> when it left because \<^verbatim>\<open>end\<close> was set.
  The \<^verbatim>\<open>continue\<close> of a comment line skips the update of \<^verbatim>\<open>readSize\<close> as well.
\<close>

function readLoop ::
    "string \<Rightarrow> int \<Rightarrow> string \<Rightarrow> string \<Rightarrow> int \<Rightarrow> string list \<times> log_entry list
      \<Rightarrow> ((string list \<times> log_entry list) \<times> string \<times> int option) outcome"
where
  "readLoop H minSize inp statement readSize acc =
     (case ReadBytes inp of
        (line0, rest, end) \<Rightarrow>
          (let lineSize = int (length line0); line = TrimSpace line0
           in if length line > 0 \<and> isComment line then
                (if end then Returns (acc, statement, None)
                 else readLoop H minSize rest statement readSize acc)
              else
                (case (if length line > 0 then processLine H acc statement line
                       else Returns (acc, statement)) of
                   Panics p \<Rightarrow> Panics p
                 | Hangs \<Rightarrow> Hangs
                 | Returns (acc', statement') \<Rightarrow>
                     (let readSize' = readSize + lineSize
                      in if readSize' \<ge> minSize then Returns (acc', statement', Some readSize')
                         else if end then Returns (acc', statement', None)
                         else readLoop H minSize rest statement' readSize' acc'))))"
  by pat_completeness auto
termination
  by (relation "measure (\<lambda>(H, m, inp, st, n, acc). length inp)")
     (auto dest: ReadBytes_shorter [OF sym])

declare readLoop.simps [simp del]

text \<open>
  \<^verbatim>\<open>minSize<<1\<close> and \<^verbatim>\<open>minSize+4096\<close> are 64-bit operations. With a nil buffer the first
  \<^verbatim>\<open>ReadBytes\<close> (or the deferred \<^verbatim>\<open>Reset\<close>) dereferences nil; \<^verbatim>\<open>make\<close> panics on a
  capacity that is negative or above \<open>maxAlloc\<close>. On a closed file \<^verbatim>\<open>currOffset\<close> is
  \<open>-1\<close> and every \<^verbatim>\<open>ReadBytes\<close> returns an empty line with an error other than
  \<^verbatim>\<open>io.EOF\<close>: \<^verbatim>\<open>readSize\<close> stays 0 and the loop ends only when \<^verbatim>\<open>minSize\<close> is not
  positive.
\<close>

definition MDDataReader_Read ::
    "MDDataReader \<Rightarrow> int
      \<Rightarrow> ((error + string list) \<times> log_entry list \<times> MDDataReader) outcome"
where
  "MDDataReader_Read r minSize =
     (let beginPos = currOffset r
      in if beginPos \<ge> fsize r then Returns (Inl EOF, [], r)
         else
           (case acquireBufferReader r (wrap64 (2 * minSize)) of
              Panics p \<Rightarrow> Panics p
            | Hangs \<Rightarrow> Hangs
            | Returns r1 \<Rightarrow>
               if buffer r1 = None then Panics NilPointerDereference
               else if wrap64 (minSize + 4096) < 0 \<or> maxAlloc < wrap64 (minSize + 4096)
                 then Panics MakesliceCapOutOfRange
               else
                 (case fd r1 of
                    None \<Rightarrow> if 0 \<ge> minSize then Returns (Inr [], [], r1) else Hangs
                  | Some h \<Rightarrow>
                      if closed h then
                        (if 0 \<ge> minSize then Returns (Inr [], [], r1) else Hangs)
                      else
                        (case readLoop (stmtHeader r1) minSize (unread h) [] 0 ([], []) of
                           Panics p \<Rightarrow> Panics p
                         | Hangs \<Rightarrow> Hangs
                         | Returns (acc, statement, seek) \<Rightarrow>
                             (let h' = (case seek of
                                          None \<Rightarrow> atEOF h
                                        | Some n \<Rightarrow>
                                            (case os_Seek h (beginPos + n) of
                                               Inr h2 \<Rightarrow> h2
                                             | Inl e \<Rightarrow> atEOF h))
                              in case (if length statement > 0
                                       then appendSQL (stmtHeader r1) acc statement
                                       else Returns acc) of
                                   Panics p \<Rightarrow> Panics p
                                 | Hangs \<Rightarrow> Hangs
                                 | Returns (stmts, logs) \<Rightarrow>
                                     Returns (Inr stmts, logs, r1\<lparr>fd := Some h'\<rparr>))))))"

section \<open>Region reader\<close>

record RegionReader =
  fileReader :: MDDataReader
  offset :: int
  size_r :: int
  pos :: int

definition NewRegionReader ::
    "filesystem \<Rightarrow> string \<Rightarrow> int \<Rightarrow> int \<Rightarrow> (error + RegionReader) outcome" where
  "NewRegionReader fs path off sz =
     (case NewMDDataReader fs path off of
        Returns (Inl e) \<Rightarrow> Returns (Inl e)
      | Returns (Inr fr) \<Rightarrow>
          Returns (Inr \<lparr>fileReader = fr, offset = off, size_r = sz, pos = MDDataReader_Tell fr\<rparr>)
      | Panics p \<Rightarrow> Panics p
      | Hangs \<Rightarrow> Hangs)"

definition RegionReader_Read ::
    "RegionReader \<Rightarrow> int
      \<Rightarrow> ((error + string list) \<times> log_entry list \<times> RegionReader) outcome"
where
  "RegionReader_Read rr maxBlockSize =
     (if pos rr \<ge> wrap64 (offset rr + size_r rr) then Returns (Inl EOF, [], rr)
      else
        (let readSize0 = wrap64 (wrap64 (offset rr + size_r rr) - pos rr);
             readSize = (if maxBlockSize < readSize0 then maxBlockSize else readSize0)
         in case MDDataReader_Read (fileReader rr) readSize of
              Panics p \<Rightarrow> Panics p
            | Hangs \<Rightarrow> Hangs
            | Returns (res, logs, fr') \<Rightarrow>
                Returns (res, logs, rr\<lparr>fileReader := fr', pos := MDDataReader_Tell fr'\<rparr>)))"

definition RegionReader_Tell :: "RegionReader \<Rightarrow> int" where
  "RegionReader_Tell rr = pos rr"

definition RegionReader_Seek :: "RegionReader \<Rightarrow> int \<Rightarrow> RegionReader outcome" where
  "RegionReader_Seek rr p =
     (case MDDataReader_Seek (fileReader rr) p of
        Returns (q, fr') \<Rightarrow> Returns (rr\<lparr>fileReader := fr', pos := q\<rparr>)
      | Panics x \<Rightarrow> Panics x
      | Hangs \<Rightarrow> Hangs)"

definition RegionReader_Size :: "RegionReader \<Rightarrow> int" where
  "RegionReader_Size rr = size_r rr"

definition RegionReader_Close :: "RegionReader \<Rightarrow> error option \<times> RegionReader" where
  "RegionReader_Close rr =
     (case MDDataReader_Close (fileReader rr) of (e, fr') \<Rightarrow> (e, rr\<lparr>fileReader := fr'\<rparr>))"

section \<open>Encoding normalizer\<close>

text \<open>
  \<^verbatim>\<open>utf8.DecodeRune\<close>: the rune at the head of the bytes and its width; an ill-formed
  head gives \<open>(0xFFFD, 1)\<close>, no bytes give \<open>(0xFFFD, 0)\<close>.
\<close>

definition RuneError :: int where
  "RuneError = 0xFFFD"

definition byteAt :: "string \<Rightarrow> nat \<Rightarrow> int" where
  "byteAt p i = of_char (p ! i)"

definition DecodeRune :: "string \<Rightarrow> int \<times> nat" where
  "DecodeRune p =
     (if length p < 1 then (RuneError, 0)
      else
        (let p0 = byteAt p 0
         in if p0 < 0x80 then (p0, 1)
            else if p0 < 0xC2 \<or> 0xF4 < p0 then (RuneError, 1)
            else
              (let sz = (if p0 < 0xE0 then 2 else if p0 < 0xF0 then 3 else (4::nat));
                   lo = (if p0 = 0xE0 then 0xA0 else if p0 = 0xF0 then 0x90 else 0x80);
                   hi = (if p0 = 0xED then 0x9F else if p0 = 0xF4 then 0x8F else 0xBF)
               in if length p < sz then (RuneError, 1)
                  else
                    (let b1 = byteAt p 1
                     in if b1 < lo \<or> hi < b1 then (RuneError, 1)
                        else if sz \<le> 2 then ((p0 mod 32) * 64 + b1 mod 64, 2)
                        else
                          (let b2 = byteAt p 2
                           in if b2 < 0x80 \<or> 0xBF < b2 then (RuneError, 1)
                              else if sz \<le> 3 then
                                ((p0 mod 16) * 4096 + (b1 mod 64) * 64 + b2 mod 64, 3)
                              else
                                (let b3 = byteAt p 3
                                 in if b3 < 0x80 \<or> 0xBF < b3 then (RuneError, 1)
                                    else ((p0 mod 8) * 262144 + (b1 mod 64) * 4096
                                            + (b2 mod 64) * 64 + b3 mod 64, 4)))))))"

lemma DecodeRune_width: "p \<noteq> [] \<Longrightarrow> 0 < snd (DecodeRune p)"
  by (cases p) (simp_all add: DecodeRune_def Let_def)

lemma DecodeRune_shorter:
  assumes "p \<noteq> []" and "DecodeRune p = (r, n)"
  shows "length p - n < length p"
proof -
  from assms have "0 < n" using DecodeRune_width [of p] by simp
  moreover from assms(1) have "0 < length p" by simp
  ultimately show ?thesis by linarith
qed

text \<open>\<^verbatim>\<open>utf8.Valid\<close>: no decoding step meets an ill-formed byte.\<close>

function utf8_Valid :: "string \<Rightarrow> bool" where
  "utf8_Valid p =
     (if p = [] then True
      else (case DecodeRune p of
              (r, n) \<Rightarrow> if r = RuneError \<and> n = 1 then False else utf8_Valid (drop n p)))"
  by pat_completeness auto
termination
  by (relation "measure length") (auto dest: DecodeRune_shorter [OF _ sym])

text \<open>
  \<^verbatim>\<open>bytes.ContainsRune(decoded, '\ufffd')\<close>: \<^verbatim>\<open>IndexRune\<close> looks for the first decoding step that
  yields U+FFFD, be it the encoded rune or an ill-formed byte.
\<close>

function ContainsRuneError :: "string \<Rightarrow> bool" where
  "ContainsRuneError p =
     (if p = [] then False
      else (case DecodeRune p of
              (r, n) \<Rightarrow> if r = RuneError then True else ContainsRuneError (drop n p)))"
  by pat_completeness auto
termination
  by (relation "measure length") (auto dest: DecodeRune_shorter [OF _ sym])

declare utf8_Valid.simps [simp del] ContainsRuneError.simps [simp del]

text \<open>
  The GB18030 decoder of \<^verbatim>\<open>golang.org/x/text\<close> is not part of the repository; the function
  \<open>gb18030\<close> stands for \<^verbatim>\<open>simplifiedchinese.GB18030.NewDecoder().Bytes\<close>, returning the
  decoder's error or the decoded bytes. The decoder of the library writes U+FFFD for
  bytes that are not GB18030 and returns no error.
\<close>

definition decodeGB18030 :: "(string \<Rightarrow> error + string) \<Rightarrow> string \<Rightarrow> error + string" where
  "decodeGB18030 gb18030 data =
     (case gb18030 data of
        Inl err \<Rightarrow> Inl err
      | Inr decoded \<Rightarrow>
          if ContainsRuneError decoded then Inl errInvalidSchemaEncoding else Inr decoded)"

definition decodeCharacterSet ::
    "(string \<Rightarrow> error + string) \<Rightarrow> string \<Rightarrow> string \<Rightarrow> error + string" where
  "decodeCharacterSet gb18030 data characterSet =
     (if characterSet = ''binary'' then Inr data
      else if characterSet = ''auto'' \<or> characterSet = ''utf8mb4'' then
        (if utf8_Valid data then Inr data
         else if characterSet = ''utf8mb4'' then Inl errInvalidSchemaEncoding
         else decodeGB18030 gb18030 data)
      else if characterSet = ''gb18030'' then decodeGB18030 gb18030 data
      else Inl (UnsupportedEncoding characterSet))"

section \<open>Callers used to state scenarios\<close>

definition oneFile :: "string \<Rightarrow> string \<Rightarrow> filesystem" where
  "oneFile path c = (\<lambda>p. if p = path then Some c else None)"

text \<open>Successive \<^verbatim>\<open>Read\<close> calls on one reader with the given budgets.\<close>

fun readCalls ::
    "MDDataReader \<Rightarrow> int list \<Rightarrow> ((error + string list) list \<times> MDDataReader) outcome" where
  "readCalls r [] = Returns ([], r)"
| "readCalls r (n # ns) =
     (case MDDataReader_Read r n of
        Returns (res, logs, r') \<Rightarrow>
          (case readCalls r' ns of
             Returns (rs, r'') \<Rightarrow> Returns (res # rs, r'')
           | Panics p \<Rightarrow> Panics p
           | Hangs \<Rightarrow> Hangs)
      | Panics p \<Rightarrow> Panics p
      | Hangs \<Rightarrow> Hangs)"

text \<open>Open a reader at an offset and call \<^verbatim>\<open>Read\<close> with each budget in turn.\<close>

definition openAndRead ::
    "filesystem \<Rightarrow> string \<Rightarrow> int \<Rightarrow> int list \<Rightarrow> (error + (error + string list) list) outcome"
where
  "openAndRead fs path off ns =
     (case NewMDDataReader fs path off of
        Returns (Inl e) \<Rightarrow> Returns (Inl e)
      | Returns (Inr r) \<Rightarrow>
          (case readCalls r ns of
             Returns (rs, r') \<Rightarrow> Returns (Inr rs)
           | Panics p \<Rightarrow> Panics p
           | Hangs \<Rightarrow> Hangs)
      | Panics p \<Rightarrow> Panics p
      | Hangs \<Rightarrow> Hangs)"

text \<open>The position a freshly constructed reader reports.\<close>

definition openAndTell :: "filesystem \<Rightarrow> string \<Rightarrow> int \<Rightarrow> (error + int) outcome" where
  "openAndTell fs path off =
     (case NewMDDataReader fs path off of
        Returns (Inl e) \<Rightarrow> Returns (Inl e)
      | Returns (Inr r) \<Rightarrow> Returns (Inr (MDDataReader_Tell r))
      | Panics p \<Rightarrow> Panics p
      | Hangs \<Rightarrow> Hangs)"

text \<open>Successive \<^verbatim>\<open>Read\<close> calls on a region reader.\<close>

fun regionCalls :: "RegionReader \<Rightarrow> int list \<Rightarrow> RegionReader outcome" where
  "regionCalls rr [] = Returns rr"
| "regionCalls rr (n # ns) =
     (case RegionReader_Read rr n of
        Returns (res, logs, rr') \<Rightarrow> regionCalls rr' ns
      | Panics p \<Rightarrow> Panics p
      | Hangs \<Rightarrow> Hangs)"

text \<open>
  What \<^verbatim>\<open>Tell\<close> reports after a region reader was constructed and read with each block
  size in turn; \<open>None\<close> when construction fails or a call does not return.
\<close>

definition tellAfter :: "filesystem \<Rightarrow> string \<Rightarrow> int \<Rightarrow> int \<Rightarrow> int list \<Rightarrow> int option" where
  "tellAfter fs path off sz ns =
     (case NewRegionReader fs path off sz of
        Returns (Inr rr) \<Rightarrow>
          (case regionCalls rr ns of
             Returns rr' \<Rightarrow> Some (RegionReader_Tell rr')
           | Panics p \<Rightarrow> None
           | Hangs \<Rightarrow> None)
      | Returns (Inl e) \<Rightarrow> None
      | Panics p \<Rightarrow> None
      | Hangs \<Rightarrow> None)"

text \<open>Open a reader, call \<^verbatim>\<open>Read\<close> once and ask for the position.\<close>

definition readThenTell ::
    "filesystem \<Rightarrow> string \<Rightarrow> int \<Rightarrow> int \<Rightarrow> (error + (error + string list) \<times> int) outcome"
where
  "readThenTell fs path off n =
     (case NewMDDataReader fs path off of
        Returns (Inl e) \<Rightarrow> Returns (Inl e)
      | Returns (Inr r) \<Rightarrow>
          (case MDDataReader_Read r n of
             Returns (res, logs, r') \<Rightarrow> Returns (Inr (res, MDDataReader_Tell r'))
           | Panics p \<Rightarrow> Panics p
           | Hangs \<Rightarrow> Hangs)
      | Panics p \<Rightarrow> Panics p
      | Hangs \<Rightarrow> Hangs)"

text \<open>
  Open a reader, call \<^verbatim>\<open>Read\<close>, \<^verbatim>\<open>Seek\<close> to the position that \<^verbatim>\<open>Tell\<close> reports, and call
  \<^verbatim>\<open>Read\<close> again: the two results and the position \<^verbatim>\<open>Seek\<close> returned.
\<close>

definition readSeekRead ::
    "filesystem \<Rightarrow> string \<Rightarrow> int \<Rightarrow> int \<Rightarrow> int
      \<Rightarrow> (error + (error + string list) \<times> int \<times> (error + string list)) outcome"
where
  "readSeekRead fs path off n m =
     (case NewMDDataReader fs path off of
        Returns (Inl e) \<Rightarrow> Returns (Inl e)
      | Returns (Inr r) \<Rightarrow>
          (case MDDataReader_Read r n of
             Returns (res1, logs1, r1) \<Rightarrow>
               (case MDDataReader_Seek r1 (MDDataReader_Tell r1) of
                  Returns (q, r2) \<Rightarrow>
                    (case MDDataReader_Read r2 m of
                       Returns (res2, logs2, r3) \<Rightarrow> Returns (Inr (res1, q, res2))
                     | Panics p \<Rightarrow> Panics p
                     | Hangs \<Rightarrow> Hangs)
                | Panics p \<Rightarrow> Panics p
                | Hangs \<Rightarrow> Hangs)
           | Panics p \<Rightarrow> Panics p
           | Hangs \<Rightarrow> Hangs)
      | Panics p \<Rightarrow> Panics p
      | Hangs \<Rightarrow> Hangs)"

text \<open>The file of the four lines without a newline after the last row.\<close>

definition unterminatedFile :: string where
  "unterminatedFile = ''INSERT INTO t VALUES\<newline>(1),\<newline>(2),\<newline>(3);''"

text \<open>The statements a call of \<^verbatim>\<open>Read\<close> returned, and the lines it logged.\<close>

definition emitted ::
    "((error + string list) \<times> log_entry list \<times> MDDataReader) outcome \<Rightarrow> string list" where
  "emitted x = (case x of Returns (Inr stmts, logs, r') \<Rightarrow> stmts | _ \<Rightarrow> [])"

definition logged ::
    "((error + string list) \<times> log_entry list \<times> MDDataReader) outcome \<Rightarrow> log_entry list" where
  "logged x = (case x of Returns (res, logs, r') \<Rightarrow> logs | _ \<Rightarrow> [])"

definition wellFormed :: "string \<Rightarrow> string \<Rightarrow> bool" where
  "wellFormed H s = (prefix H s \<and> suffix '';'' s)"

text \<open>A log line of the suffix check, which prints the last 10 bytes of the statement.\<close>

fun isEnding10 :: "log_entry \<Rightarrow> bool" where
  "isEnding10 (UnexpectEnd t) = (length t = 10)"
| "isEnding10 (UnexpectStart t) = False"

text \<open>
  What every match of the pattern looks like: at least the 19 bytes of
  \<^verbatim>\<open>INSERT INTO  VALUES\<close>, a first byte I or i, and a last byte S, s or the second byte
  of U+017F.
\<close>

definition headerShape :: "string \<Rightarrow> bool" where
  "headerShape H =
     (19 \<le> length H \<and> (hd H = CHR ''I'' \<or> hd H = CHR ''i'')
      \<and> (last H = CHR ''S'' \<or> last H = CHR ''s'' \<or> last H = CHR 0xBF))"


text \<open>
  The reader that \<^verbatim>\<open>NewMDDataReader\<close> returns at offset 0 of the file of the four lines
  \<^verbatim>\<open>INSERT INTO t VALUES\<close>, \<^verbatim>\<open>(1),\<close>, \<^verbatim>\<open>(2),\<close>, \<^verbatim>\<open>(3);\<close>, and a region reader on it.
\<close>

definition scenarioFile :: string where
  "scenarioFile = ''INSERT INTO t VALUES\<newline>(1),\<newline>(2),\<newline>(3);\<newline>''"

definition scenarioReader :: MDDataReader where
  "scenarioReader =
     \<lparr>fd = Some \<lparr>content = scenarioFile, fpos = 0, closed = False\<rparr>,
      file_r = ''dump.sql'', fsize = 36, start = 0,
      stmtHeader = ''INSERT INTO t VALUES'', bufferSize = 0, buffer = None\<rparr>"

definition scenarioRegion :: RegionReader where
  "scenarioRegion = \<lparr>fileReader = scenarioReader, offset = 0, size_r = 10, pos = 0\<rparr>"

text \<open>
  A stand-in for the GB18030 decoder on the inputs used below: the sequence D6 D0 is
  U+4E2D (in UTF-8 E4 B8 AD), bytes below 80 stand for themselves, and the byte 81 alone
  is no GB18030 sequence and is decoded to U+FFFD (in UTF-8 EF BF BD), as is every input
  the stand-in does not know.
\<close>

definition sampleDecoder :: "string \<Rightarrow> error + string" where
  "sampleDecoder data =
     (if data = [CHR 0xD6, CHR 0xD0] then Inr [CHR 0xE4, CHR 0xB8, CHR 0xAD]
      else if list_all (\<lambda>c. (of_char c :: nat) < 128) data then Inr data
      else Inr [CHR 0xEF, CHR 0xBF, CHR 0xBD])"

text \<open>The reader at offset 0 of a file whose only row ends neither in a comma nor in a semicolon.\<close>

definition raggedReader :: MDDataReader where
  "raggedReader =
     \<lparr>fd = Some \<lparr>content = ''INSERT INTO t VALUES\<newline>(1)\<newline>'', fpos = 0, closed = False\<rparr>,
      file_r = ''dump.sql'', fsize = 25, start = 0,
      stmtHeader = ''INSERT INTO t VALUES'', bufferSize = 0, buffer = None\<rparr>"

section \<open>Lines and positions of a file\<close>




text \<open>
  The last line of the bytes \<open>s\<close>, with its newline if \<open>s\<close> ends in one; and where the line
  that ends at the offset \<open>t\<close> of a file begins.
\<close>

definition lastLine :: "string \<Rightarrow> string" where
  "lastLine s =
     (if s = [] then []
      else rev (takeWhile (\<lambda>x. x \<noteq> CHR 0x0A) (rev (butlast s))) @ [last s])"

definition lineStart :: "string \<Rightarrow> nat \<Rightarrow> nat" where
  "lineStart c t = t - length (lastLine (take t c))"

section \<open>Dump files as the specification describes them\<close>

text \<open>
  The definitions of this section follow the specification's words, not the source: its
  data model of a dump file, and the statement it expects for a group of rows.

  A value row is a line that opens a tuple and ends in \<open>t\<close> (a comma, or a semicolon for
  the last row of the body); it holds no newline.
\<close>

definition valueRow :: "char \<Rightarrow> string \<Rightarrow> bool" where
  "valueRow t r = (r \<noteq> [] \<and> hd r = CHR ''('' \<and> last r = t \<and> CHR 0x0A \<notin> set r)"

text \<open>The rows of a statement body: every row ends in a comma, the last one in a semicolon.\<close>

fun valueRows :: "string list \<Rightarrow> bool" where
  "valueRows [] = False"
| "valueRows [r] = valueRow (CHR '';'') r"
| "valueRows (r # rs) = (valueRow (CHR '','') r \<and> valueRows rs)"

text \<open>Lines written to a file, each followed by a newline.\<close>

definition linesOf :: "string list \<Rightarrow> string" where
  "linesOf ls = concat (map (\<lambda>l. l @ [CHR 0x0A]) ls)"

text \<open>A dump file without annotation blocks: the header line, then one value row per line.\<close>

definition dumpFile :: "string \<Rightarrow> string list \<Rightarrow> string" where
  "dumpFile H rows = linesOf (H # rows)"

text \<open>The header line of a dump file: the pattern matches all of it.\<close>

definition headerLine :: "string \<Rightarrow> bool" where
  "headerLine H = (FindStringIndex (H @ [CHR 0x0A]) = Some (0, length H))"

text \<open>
  The statement the specification expects for a group of consecutive rows: the header,
  the rows, and a trailing comma rewritten to a semicolon. No rows, no statement.
\<close>

definition fixup :: "string \<Rightarrow> string" where
  "fixup s = (if suffix '','' s then butlast s @ '';'' else s)"

definition synthesized :: "string \<Rightarrow> string list \<Rightarrow> string list" where
  "synthesized H g = (if g = [] then [] else [fixup (H @ concat g)])"

text \<open>
  After how many of the lines \<open>ls\<close> a byte count that starts at \<open>n\<close> reaches the budget
  \<open>m\<close>; \<open>None\<close> when it does not reach it.
\<close>

fun reach :: "int \<Rightarrow> int \<Rightarrow> string list \<Rightarrow> nat option" where
  "reach m n [] = None"
| "reach m n (l # ls) =
     (if m \<le> n + int (length l) + 1 then Some 1
      else map_option Suc (reach m (n + int (length l) + 1) ls))"

text \<open>Strings that \<^verbatim>\<open>TrimSpace\<close> leaves alone, judged by their first and last byte.\<close>

definition solid :: "string \<Rightarrow> bool" where
  "solid s = (s \<noteq> [] \<and> hd s \<in> {CHR ''('', CHR ''I'', CHR ''i''}
              \<and> last s \<in> {CHR '','', CHR '';'', CHR ''S'', CHR ''s'', CHR 0xBF})"

text \<open>The statement buffer once a line is appended: the header is prepended to an empty one.\<close>

definition withHeader :: "string \<Rightarrow> string \<Rightarrow> string" where
  "withHeader H st = (if st = [] then H else st)"

text \<open>A reader with header \<open>H\<close> whose open file has the bytes \<open>c\<close> and the offset \<open>p\<close>.\<close>

definition readerAt :: "MDDataReader \<Rightarrow> string \<Rightarrow> string \<Rightarrow> int \<Rightarrow> bool" where
  "readerAt r H c p =
     (fd r = Some \<lparr>content = c, fpos = p, closed = False\<rparr> \<and> stmtHeader r = H
      \<and> fsize r = int (length c))"

section \<open>Properties of the reading loop\<close>

text \<open>One iteration of the loop of \<^verbatim>\<open>Read\<close>, by the kind of line it reads.\<close>

lemma readLoop_comment:
  assumes "ReadBytes inp = (line0, rest, e)" and "TrimSpace line0 \<noteq> []"
    and "isComment (TrimSpace line0)"
  shows "readLoop H m inp st n acc =
           (if e then Returns (acc, st, None) else readLoop H m rest st n acc)"
  using assms by (simp add: readLoop.simps [of H m inp])

lemma readLoop_blank:
  assumes "ReadBytes inp = (line0, rest, e)" and "TrimSpace line0 = []"
  shows "readLoop H m inp st n acc =
           (if n + int (length line0) \<ge> m then Returns (acc, st, Some (n + int (length line0)))
            else if e then Returns (acc, st, None)
            else readLoop H m rest st (n + int (length line0)) acc)"
  using assms by (simp add: readLoop.simps [of H m inp] Let_def)

lemma readLoop_line:
  assumes "ReadBytes inp = (line0, rest, e)" and "TrimSpace line0 \<noteq> []"
    and "\<not> isComment (TrimSpace line0)"
  shows "readLoop H m inp st n acc =
           (case processLine H acc st (TrimSpace line0) of
              Panics p \<Rightarrow> Panics p
            | Hangs \<Rightarrow> Hangs
            | Returns (acc', st') \<Rightarrow>
                if n + int (length line0) \<ge> m
                then Returns (acc', st', Some (n + int (length line0)))
                else if e then Returns (acc', st', None)
                else readLoop H m rest st' (n + int (length line0)) acc')"
  using assms
  by (simp add: readLoop.simps [of H m inp] Let_def split: outcome.splits prod.splits)

lemma readLoop_invariant:
  assumes "readLoop H m inp st n acc = Returns (acc', st', sk)"
    and "I acc st"
    and step: "\<And>a s line a' s'. I a s \<Longrightarrow> line \<noteq> [] \<Longrightarrow>
                 processLine H a s line = Returns (a', s') \<Longrightarrow> I a' s'"
  shows "I acc' st'"
  using assms(1,2)
proof (induction inp arbitrary: st n acc rule: length_induct)
  case (1 inp)
  obtain line0 rest e where rb: "ReadBytes inp = (line0, rest, e)"
    by (cases "ReadBytes inp") auto
  have shorter: "\<not> e \<Longrightarrow> length rest < length inp"
    using rb ReadBytes_shorter by auto
  consider (comment) "TrimSpace line0 \<noteq> []" "isComment (TrimSpace line0)"
    | (blank) "TrimSpace line0 = []"
    | (line) "TrimSpace line0 \<noteq> []" "\<not> isComment (TrimSpace line0)"
    by blast
  then show ?case
  proof cases
    case comment
    from "1.prems"(1) readLoop_comment [OF rb comment]
    have *: "(if e then Returns (acc, st, None) else readLoop H m rest st n acc)
               = Returns (acc', st', sk)" by simp
    show ?thesis
    proof (cases e)
      case True
      with * "1.prems"(2) show ?thesis by simp
    next
      case False
      with * have "readLoop H m rest st n acc = Returns (acc', st', sk)" by simp
      with "1.IH" shorter False "1.prems"(2) show ?thesis by blast
    qed
  next
    case blank
    from "1.prems"(1) readLoop_blank [OF rb blank]
    have *: "(if n + int (length line0) \<ge> m then Returns (acc, st, Some (n + int (length line0)))
            else if e then Returns (acc, st, None)
            else readLoop H m rest st (n + int (length line0)) acc) = Returns (acc', st', sk)"
      by simp
    show ?thesis
    proof (cases "n + int (length line0) \<ge> m \<or> e")
      case True
      with * "1.prems"(2) show ?thesis by (auto split: if_splits)
    next
      case False
      with * have "readLoop H m rest st (n + int (length line0)) acc = Returns (acc', st', sk)"
        by simp
      with "1.IH" shorter False "1.prems"(2) show ?thesis by blast
    qed
  next
    case line
    from "1.prems"(1) readLoop_line [OF rb line]
    obtain a s where pl: "processLine H acc st (TrimSpace line0) = Returns (a, s)"
      and *: "(if n + int (length line0) \<ge> m
                then Returns (a, s, Some (n + int (length line0)))
                else if e then Returns (a, s, None)
                else readLoop H m rest s (n + int (length line0)) a) = Returns (acc', st', sk)"
      by (auto split: outcome.splits)
    from step [OF "1.prems"(2) line(1) pl] have inv: "I a s" .
    show ?thesis
    proof (cases "n + int (length line0) \<ge> m \<or> e")
      case True
      with * inv show ?thesis by (auto split: if_splits)
    next
      case False
      with * have "readLoop H m rest s (n + int (length line0)) a = Returns (acc', st', sk)"
        by simp
      with "1.IH" shorter False inv show ?thesis by blast
    qed
  qed
qed

subsection \<open>Emitted statements\<close>

lemma prefix_butlast_longer:
  assumes "prefix H sql" and "length sql \<noteq> length H"
  shows "prefix H (butlast sql)"
proof -
  from assms obtain t where t: "sql = H @ t" and "t \<noteq> []"
    by (auto simp: prefix_def)
  then have "butlast sql = H @ butlast t" by (simp add: butlast_append)
  then show ?thesis by simp
qed

lemma appendSQL_wellFormed:
  assumes "appendSQL H acc sql = Returns acc'"
    and "\<forall>s\<in>set (fst acc). wellFormed H s"
  shows "\<forall>s\<in>set (fst acc'). wellFormed H s"
  using assms
  by (auto simp: appendSQL_def Let_def wellFormed_def prefix_butlast_longer split: if_splits)

lemma processLine_wellFormed:
  assumes "processLine H acc st line = Returns (acc', st')"
    and "\<forall>s\<in>set (fst acc). wellFormed H s"
  shows "\<forall>s\<in>set (fst acc'). wellFormed H s"
  using assms
  by (auto simp: processLine_def Let_def split: if_splits outcome.splits
           dest: appendSQL_wellFormed)

lemma readLoop_wellFormed:
  assumes "readLoop H m inp st n acc = Returns (acc', st', sk)"
    and "\<forall>s\<in>set (fst acc). wellFormed H s"
  shows "\<forall>s\<in>set (fst acc'). wellFormed H s"
  by (rule readLoop_invariant [where I = "\<lambda>a s. \<forall>x\<in>set (fst a). wellFormed H x", OF assms])
     (rule processLine_wellFormed)

lemma acquireBufferReader_Returns:
  assumes "acquireBufferReader r n = Returns r1"
  shows "stmtHeader r1 = stmtHeader r" and "fd r1 = fd r" and "fsize r1 = fsize r"
  using assms by (auto simp: acquireBufferReader_def split: if_splits)


subsection \<open>Positions\<close>

lemma readLoop_seek_bound:
  assumes "readLoop H m inp st n acc = Returns (acc', st', Some k)"
  shows "n \<le> k \<and> k \<le> n + int (length inp)"
  using assms
proof (induction inp arbitrary: st n acc rule: length_induct)
  case (1 inp)
  obtain line0 rest e where rb: "ReadBytes inp = (line0, rest, e)"
    by (cases "ReadBytes inp") auto
  have shorter: "\<not> e \<Longrightarrow> length rest < length inp"
    using rb ReadBytes_shorter by auto
  have len: "length inp = length line0 + length rest"
    using ReadBytes_append [OF rb] by simp
  consider (comment) "TrimSpace line0 \<noteq> []" "isComment (TrimSpace line0)"
    | (blank) "TrimSpace line0 = []"
    | (line) "TrimSpace line0 \<noteq> []" "\<not> isComment (TrimSpace line0)"
    by blast
  then show ?case
  proof cases
    case comment
    from "1.prems" readLoop_comment [OF rb comment]
    have "\<not> e" and "readLoop H m rest st n acc = Returns (acc', st', Some k)"
      by (auto split: if_splits)
    with "1.IH" shorter have "n \<le> k \<and> k \<le> n + int (length rest)" by blast
    with len show ?thesis by simp
  next
    case blank
    from "1.prems" readLoop_blank [OF rb blank]
    have *: "(if n + int (length line0) \<ge> m then Returns (acc, st, Some (n + int (length line0)))
            else if e then Returns (acc, st, None)
            else readLoop H m rest st (n + int (length line0)) acc) = Returns (acc', st', Some k)"
      by simp
    show ?thesis
    proof (cases "n + int (length line0) \<ge> m")
      case True
      with * len show ?thesis by simp
    next
      case False
      with * have "\<not> e"
        and "readLoop H m rest st (n + int (length line0)) acc = Returns (acc', st', Some k)"
        by (auto split: if_splits)
      with "1.IH" shorter
      have "n + int (length line0) \<le> k \<and> k \<le> n + int (length line0) + int (length rest)"
        by blast
      with len show ?thesis by simp
    qed
  next
    case line
    from "1.prems" readLoop_line [OF rb line]
    obtain a s where
      *: "(if n + int (length line0) \<ge> m
                then Returns (a, s, Some (n + int (length line0)))
                else if e then Returns (a, s, None)
                else readLoop H m rest s (n + int (length line0)) a) = Returns (acc', st', Some k)"
      by (auto split: outcome.splits)
    show ?thesis
    proof (cases "n + int (length line0) \<ge> m")
      case True
      with * len show ?thesis by simp
    next
      case False
      with * have "\<not> e"
        and "readLoop H m rest s (n + int (length line0)) a = Returns (acc', st', Some k)"
        by (auto split: if_splits)
      with "1.IH" shorter
      have "n + int (length line0) \<le> k \<and> k \<le> n + int (length line0) + int (length rest)"
        by blast
      with len show ?thesis by simp
    qed
  qed
qed









subsection \<open>The shape of a header\<close>

lemma foldOrbit_nonempty: "e \<in> set (foldOrbit p) \<Longrightarrow> e \<noteq> []"
  by (auto simp: foldOrbit_def split: if_splits)

lemma matchChar_Some:
  assumes "matchChar p s = Some k"
  shows "\<exists>e\<in>set (foldOrbit p). prefix e s \<and> k = length e"
  using assms by (auto simp: matchChar_def find_Some_iff)

lemma matchChar_bounds:
  assumes "matchChar p s = Some k"
  shows "1 \<le> k \<and> k \<le> length s"
proof -
  from matchChar_Some [OF assms] obtain e where
    e: "e \<in> set (foldOrbit p)" "prefix e s" "k = length e" by blast
  from e(1) have "e \<noteq> []" by (rule foldOrbit_nonempty)
  with e(2,3) show ?thesis
    by (cases e) (auto dest: prefix_length_le)
qed

lemma matchLit_bounds:
  "matchLit ps s = Some n \<Longrightarrow> length ps \<le> n \<and> n \<le> length s"
proof (induction ps arbitrary: s n)
  case Nil
  then show ?case by simp
next
  case (Cons p ps)
  from Cons.prems obtain k m where k: "matchChar p s = Some k"
    and m: "matchLit ps (drop k s) = Some m" and n: "n = k + m"
    by (auto split: option.splits)
  from matchChar_bounds [OF k] Cons.IH [OF m] n show ?case by auto
qed

lemma matchLit_last:
  "matchLit ps s = Some n \<Longrightarrow> ps \<noteq> [] \<Longrightarrow> \<exists>e\<in>set (foldOrbit (last ps)). suffix e (take n s)"
proof (induction ps arbitrary: s n)
  case Nil
  then show ?case by simp
next
  case (Cons p ps)
  from Cons.prems obtain k m where k: "matchChar p s = Some k"
    and m: "matchLit ps (drop k s) = Some m" and n: "n = k + m"
    by (auto split: option.splits)
  have tk: "take n s = take k s @ take m (drop k s)"
    using n by (simp add: take_add)
  show ?case
  proof (cases "ps = []")
    case True
    with m have "m = 0" by simp
    from matchChar_Some [OF k] obtain e where
      e: "e \<in> set (foldOrbit p)" "prefix e s" "k = length e" by blast
    then have "take k s = e" by (auto simp: prefix_def)
    with tk \<open>m = 0\<close> True e(1) show ?thesis by auto
  next
    case False
    from Cons.IH [OF m False] obtain e where
      "e \<in> set (foldOrbit (last ps))" "suffix e (take m (drop k s))" by blast
    with tk False show ?thesis by (auto intro: suffix_appendI)
  qed
qed

lemma matchLit_first:
  assumes "matchLit (p # ps) s = Some n"
  shows "\<exists>e\<in>set (foldOrbit p). prefix e s"
  using assms by (auto split: option.splits dest: matchChar_Some)

lemma matchLit_VALUES:
  assumes "matchLit '' VALUES'' s = Some n"
  shows "7 \<le> n \<and> n \<le> length s \<and> (\<exists>e\<in>set (foldOrbit (CHR ''S'')). suffix e (take n s))"
  using matchLit_bounds [OF assms] matchLit_last [OF assms] by simp

lemma matchTail_Some:
  "matchTail s = Some n \<Longrightarrow>
     7 \<le> n \<and> n \<le> length s \<and> (\<exists>e\<in>set (foldOrbit (CHR ''S'')). suffix e (take n s))"
proof (induction s arbitrary: n)
  case Nil
  then have "matchLit '' VALUES'' [] = Some n" unfolding matchTail.simps(1) .
  from matchLit_VALUES [OF this] show ?case .
next
  case (Cons c cs)
  show ?case
  proof (cases "c \<noteq> CHR 0x0A \<and> matchTail cs \<noteq> None")
    case True
    then obtain n' where n': "matchTail cs = Some n'" by auto
    with True Cons.prems have n: "n = Suc n'" by simp
    from Cons.IH [OF n'] obtain e where "7 \<le> n'" "n' \<le> length cs"
      "e \<in> set (foldOrbit (CHR ''S''))" "suffix e (take n' cs)" by blast
    with n show ?thesis by (auto intro: suffix_ConsI)
  next
    case False
    with Cons.prems have "matchLit '' VALUES'' (c # cs) = Some n"
      by (auto split: if_splits option.splits)
    from matchLit_VALUES [OF this] show ?thesis .
  qed
qed

lemma foldOrbit_S: "foldOrbit (CHR ''S'') = [''S'', ''s'', [CHR 0xC5, CHR 0xBF]]"
  by code_simp

lemma foldOrbit_I: "foldOrbit (CHR ''I'') = [''I'', ''i'']"
  by code_simp

lemma foldOrbit_S_last:
  "e \<in> set (foldOrbit (CHR ''S'')) \<Longrightarrow>
     last e = CHR ''S'' \<or> last e = CHR ''s'' \<or> last e = CHR 0xBF"
  by (auto simp: foldOrbit_S)

lemma foldOrbit_I_hd:
  "e \<in> set (foldOrbit (CHR ''I'')) \<Longrightarrow> e = ''I'' \<or> e = ''i''"
  by (auto simp: foldOrbit_I)

lemma matchAt_Some:
  assumes "matchAt s = Some n"
  shows "n \<le> length s \<and> headerShape (take n s)"
proof -
  from assms obtain k m where k: "matchLit ''INSERT INTO '' s = Some k"
    and m: "matchTail (drop k s) = Some m" and n: "n = k + m"
    by (auto simp: matchAt_def split: option.splits)
  from matchLit_bounds [OF k] have kb: "12 \<le> k" "k \<le> length s" by simp_all
  from matchTail_Some [OF m] obtain e where mb: "7 \<le> m" "m \<le> length s - k"
    and e: "e \<in> set (foldOrbit (CHR ''S''))" "suffix e (take m (drop k s))" by auto
  have tk: "take n s = take k s @ take m (drop k s)"
    using n by (simp add: take_add)
  from e(1) have "e \<noteq> []" by (rule foldOrbit_nonempty)
  from e(2) tk have "suffix e (take n s)" by (simp add: suffix_appendI)
  then obtain u where "take n s = u @ e" by (auto simp: suffix_def)
  with \<open>e \<noteq> []\<close> have "last (take n s) = last e" by simp
  with foldOrbit_S_last [OF e(1)]
  have l: "last (take n s) = CHR ''S'' \<or> last (take n s) = CHR ''s'' \<or> last (take n s) = CHR 0xBF"
    by simp
  from matchLit_first [OF k] obtain f where "f \<in> set (foldOrbit (CHR ''I''))" "prefix f s"
    by blast
  with foldOrbit_I_hd [of f] have "hd s = CHR ''I'' \<or> hd s = CHR ''i''"
    by (auto simp: prefix_def)
  moreover from kb mb n have "0 < n" by simp
  ultimately have h: "hd (take n s) = CHR ''I'' \<or> hd (take n s) = CHR ''i''"
    by (cases s) (auto simp: take_Cons')
  from kb mb n have "n \<le> length s" "19 \<le> n" by simp_all
  with h l show ?thesis by (simp add: headerShape_def)
qed

lemma FindStringIndex_Some:
  "FindStringIndex s = Some (a, b) \<Longrightarrow>
     a \<le> b \<and> b \<le> length s \<and> matchAt (drop a s) = Some (b - a)"
proof (induction s arbitrary: a b)
  case Nil
  then show ?case
    by (auto split: option.splits dest: matchAt_Some)
next
  case (Cons c cs)
  show ?case
  proof (cases "matchAt (c # cs)")
    case (Some n)
    with Cons.prems have "a = 0" "b = n" by simp_all
    with Some matchAt_Some [OF Some] show ?thesis by simp
  next
    case None
    with Cons.prems obtain a' b' where ab: "FindStringIndex cs = Some (a', b')"
      "a = Suc a'" "b = Suc b'"
      by (auto split: option.splits)
    from Cons.IH [OF ab(1)] ab(2,3) show ?thesis by simp
  qed
qed

lemma FindStringIndex_headerShape:
  assumes "FindStringIndex line = Some (a, b)"
  shows "headerShape (take (b - a) (drop a line))"
  using FindStringIndex_Some [OF assms] matchAt_Some by blast

lemma headerLoop_headerShape:
  "headerLoop inp \<noteq> [] \<Longrightarrow> headerShape (headerLoop inp)"
proof (induction inp rule: length_induct)
  case (1 inp)
  obtain line rest e where rb: "ReadBytes inp = (line, rest, e)"
    by (cases "ReadBytes inp") auto
  show ?case
  proof (cases "FindStringIndex line")
    case None
    with rb "1.prems" have ne: "\<not> e" and eq: "headerLoop inp = headerLoop rest"
      by (auto simp: headerLoop.simps [of inp] split: if_splits)
    from ne rb have "length rest < length inp" using ReadBytes_shorter by auto
    with "1.IH" "1.prems" eq show ?thesis by auto
  next
    case (Some ab)
    obtain a b where ab: "ab = (a, b)" by (cases ab)
    with Some rb "1.prems" have "headerLoop inp = take (b - a) (drop a line)"
      by (auto simp: headerLoop.simps [of inp] split: if_splits)
    with FindStringIndex_headerShape Some ab show ?thesis by simp
  qed
qed

subsection \<open>A header survives trimming\<close>

lemma headerShape_nonempty: "headerShape H \<Longrightarrow> H \<noteq> []"
  by (auto simp: headerShape_def)

lemma spaceRunes_hd:
  "e \<in> set spaceRunes \<Longrightarrow> hd e \<noteq> CHR ''I'' \<and> hd e \<noteq> CHR ''i''"
  by (auto simp: spaceRunes_def)

lemma spaceRunes_bytes:
  "e \<in> set spaceRunes \<Longrightarrow> CHR ''S'' \<notin> set e \<and> CHR ''s'' \<notin> set e \<and> CHR 0xBF \<notin> set e"
  by (auto simp: spaceRunes_def)

lemma leadingSpace_header:
  assumes "headerShape H"
  shows "leadingSpace (H @ x) = None"
proof -
  have "\<not> prefix e (H @ x)" if e: "e \<in> set spaceRunes" for e
  proof
    assume p: "prefix e (H @ x)"
    from e have "e \<noteq> []" by (rule spaceRunes_nonempty)
    with p headerShape_nonempty [OF assms] have "hd e = hd H"
      by (cases e; cases H) auto
    with spaceRunes_hd [OF e] assms show False by (auto simp: headerShape_def)
  qed
  then show ?thesis by (auto simp: leadingSpace_def find_None_iff)
qed

lemma TrimLeft_header: "headerShape H \<Longrightarrow> TrimLeft (H @ x) = H @ x"
  by (simp add: TrimLeft.simps [of "H @ x"] leadingSpace_header)

lemma suffix_not_into_header:
  assumes "headerShape H" and "e \<in> set spaceRunes" and "suffix e (H @ t)"
  shows "length e \<le> length t"
proof (rule ccontr)
  assume "\<not> length e \<le> length t"
  then have lt: "length t < length e" by simp
  from assms(3) obtain u where u: "H @ t = u @ e" by (auto simp: suffix_def)
  with lt have "length u < length H" by (metis add_less_cancel_left length_append nat_add_left_cancel_less add.commute)
  with u obtain v where "H = u @ v" "v \<noteq> []" "e = v @ t"
    by (auto simp: append_eq_append_conv2)
  then have "last H \<in> set e" by auto
  with spaceRunes_bytes [OF assms(2)] assms(1) show False
    by (auto simp: headerShape_def)
qed

lemma TrimRight_header:
  "headerShape H \<Longrightarrow> prefix H s \<Longrightarrow> prefix H (TrimRight s)"
proof (induction s rule: length_induct)
  case (1 s)
  show ?case
  proof (cases "trailingSpace s")
    case None
    with "1.prems" show ?thesis by (simp add: TrimRight.simps [of s])
  next
    case (Some e)
    from trailingSpace_Some [OF Some] have e: "e \<in> set spaceRunes" "suffix e s" by simp_all
    from "1.prems"(2) obtain t where t: "s = H @ t" by (auto simp: prefix_def)
    from suffix_not_into_header [OF "1.prems"(1) e(1)] e(2) t
    have le: "length e \<le> length t" by simp
    let ?s' = "take (length s - length e) s"
    from t le have "?s' = H @ take (length t - length e) t" by simp
    then have p: "prefix H ?s'" by simp
    from trailingSpace_shorter [OF Some] have "length ?s' < length s" .
    with "1.IH" "1.prems"(1) p have "prefix H (TrimRight ?s')" by blast
    with Some show ?thesis by (simp add: TrimRight.simps [of s])
  qed
qed

lemma TrimSpace_header:
  assumes "headerShape H" and "prefix H s"
  shows "prefix H (TrimSpace s)"
proof -
  from assms(2) obtain t where "s = H @ t" by (auto simp: prefix_def)
  with assms show ?thesis
    by (simp add: TrimSpace_def TrimLeft_header TrimRight_header)
qed

lemma appendSQL_header:
  assumes "headerShape H" and "prefix H sql" and "list_all isEnding10 (snd acc)"
  shows "\<exists>acc'. appendSQL H acc sql = Returns acc' \<and> list_all isEnding10 (snd acc')"
proof -
  let ?sql = "TrimSpace sql"
  from TrimSpace_header [OF assms(1,2)] have p: "prefix H ?sql" .
  then have "length H \<le> length ?sql" by (rule prefix_length_le)
  with assms(1) have len: "10 \<le> length ?sql" by (simp add: headerShape_def)
  with p assms(3) show ?thesis
    by (auto simp: appendSQL_def Let_def simp del: split_paired_Ex)
qed

lemma processLine_header:
  assumes "headerShape H" and "st = [] \<or> prefix H st" and "list_all isEnding10 (snd acc)"
  shows "\<exists>acc' st'. processLine H acc st line = Returns (acc', st')
           \<and> (st' = [] \<or> prefix H st') \<and> list_all isEnding10 (snd acc')"
proof -
  let ?st1 = "if length st = 0 \<and> \<not> prefix H line then st @ H else st"
  have p: "prefix H (?st1 @ line)"
    using assms(2) headerShape_nonempty [OF assms(1)] by (auto simp: prefix_def)
  from appendSQL_header [OF assms(1) p assms(3)] obtain acc' where
    "appendSQL H acc (?st1 @ line) = Returns acc'" "list_all isEnding10 (snd acc')" by blast
  with p assms(3) show ?thesis
    by (auto simp: processLine_def Let_def simp del: split_paired_Ex)
qed

lemma readLoop_total:
  assumes "I acc st"
    and step: "\<And>a s line. I a s \<Longrightarrow> line \<noteq> [] \<Longrightarrow>
                 \<exists>a' s'. processLine H a s line = Returns (a', s') \<and> I a' s'"
  shows "\<exists>acc' st' sk. readLoop H m inp st n acc = Returns (acc', st', sk) \<and> I acc' st'"
  using assms(1)
proof (induction inp arbitrary: st n acc rule: length_induct)
  case (1 inp)
  obtain line0 rest e where rb: "ReadBytes inp = (line0, rest, e)"
    by (cases "ReadBytes inp") auto
  have shorter: "\<not> e \<Longrightarrow> length rest < length inp"
    using rb ReadBytes_shorter by auto
  consider (comment) "TrimSpace line0 \<noteq> []" "isComment (TrimSpace line0)"
    | (blank) "TrimSpace line0 = []"
    | (line) "TrimSpace line0 \<noteq> []" "\<not> isComment (TrimSpace line0)"
    by blast
  then show ?case
  proof cases
    case comment
    show ?thesis
    proof (cases e)
      case True
      with readLoop_comment [OF rb comment] "1.prems" show ?thesis
        by (auto simp del: split_paired_Ex)
    next
      case False
      with "1.IH" shorter "1.prems"
      have "\<exists>acc' st' sk. readLoop H m rest st n acc = Returns (acc', st', sk) \<and> I acc' st'"
        by blast
      with False readLoop_comment [OF rb comment] show ?thesis by simp
    qed
  next
    case blank
    show ?thesis
    proof (cases "n + int (length line0) \<ge> m \<or> e")
      case True
      with readLoop_blank [OF rb blank] "1.prems" show ?thesis
        by (auto simp del: split_paired_Ex)
    next
      case False
      with "1.IH" shorter "1.prems"
      have "\<exists>acc' st' sk. readLoop H m rest st (n + int (length line0)) acc
              = Returns (acc', st', sk) \<and> I acc' st'"
        by blast
      with False readLoop_blank [OF rb blank] show ?thesis by simp
    qed
  next
    case line
    from step [OF "1.prems" line(1)] obtain a s where
      pl: "processLine H acc st (TrimSpace line0) = Returns (a, s)" and inv: "I a s" by blast
    show ?thesis
    proof (cases "n + int (length line0) \<ge> m \<or> e")
      case True
      with readLoop_line [OF rb line] pl inv show ?thesis
        by (auto simp del: split_paired_Ex)
    next
      case False
      with "1.IH" shorter inv
      have "\<exists>acc' st' sk. readLoop H m rest s (n + int (length line0)) a
              = Returns (acc', st', sk) \<and> I acc' st'"
        by blast
      with False readLoop_line [OF rb line] pl show ?thesis by simp
    qed
  qed
qed

lemma readLoop_header:
  assumes "headerShape H"
  shows "\<exists>acc st sk. readLoop H m inp [] 0 ([], []) = Returns (acc, st, sk)
           \<and> (st = [] \<or> prefix H st) \<and> list_all isEnding10 (snd acc)"
  by (rule readLoop_total
        [where I = "\<lambda>a s. (s = [] \<or> prefix H s) \<and> list_all isEnding10 (snd a)"])
     (use processLine_header [OF assms] in auto)

lemma MDDataReader_Read_header:
  assumes "headerShape (stmtHeader r)"
  shows "MDDataReader_Read r m \<noteq> Panics SliceBoundsOutOfRange
         \<and> list_all isEnding10 (logged (MDDataReader_Read r m))"
proof -
  let ?H = "stmtHeader r"
  have fin: "\<exists>stmts logs. (if length st > 0 then appendSQL ?H acc st else Returns acc)
                 = Returns (stmts, logs) \<and> list_all isEnding10 logs"
    if "st = [] \<or> prefix ?H st" "list_all isEnding10 (snd acc)" for st acc
    using that appendSQL_header [OF assms, of st acc] by (cases acc) auto
  show ?thesis
  proof (cases "\<exists>h. fd r = Some h \<and> \<not> closed h")
    case False
    then show ?thesis
      by (auto simp: MDDataReader_Read_def acquireBufferReader_def Let_def logged_def split: option.splits)
  next
    case True
    then obtain h where h: "fd r = Some h" "\<not> closed h" by blast
    from readLoop_header [OF assms, of m "unread h"] obtain acc st sk where
      loop: "readLoop ?H m (unread h) [] 0 ([], []) = Returns (acc, st, sk)"
      and inv: "st = [] \<or> prefix ?H st" "list_all isEnding10 (snd acc)" by blast
    from fin [OF inv] obtain stmts logs where
      f: "(if length st > 0 then appendSQL ?H acc st else Returns acc) = Returns (stmts, logs)"
      and l: "list_all isEnding10 logs" by blast
    from h loop f l show ?thesis
      by (auto simp: MDDataReader_Read_def acquireBufferReader_def Let_def logged_def split: if_splits)
  qed
qed

lemma skipAnnotation_stmtHeader:
  "skipAnnotation r off = Returns (p, r') \<Longrightarrow> stmtHeader r' = stmtHeader r"
  by (auto simp: skipAnnotation_def Let_def split: option.splits if_splits)

lemma NewMDDataReader_headerShape:
  assumes "NewMDDataReader fs path off = Returns (Inr r)"
  shows "headerShape (stmtHeader r)"
proof -
  from assms obtain c where c: "fs path = Some c"
    by (auto simp: NewMDDataReader_def os_Open_def split: option.splits)
  let ?f1 = "\<lparr>content = c, fpos = off, closed = False\<rparr>"
  let ?mdr = "\<lparr>fd = Some ?f1, file_r = path, fsize = int (length c), start = off,
               stmtHeader = headerLoop c, bufferSize = 0, buffer = None\<rparr>"
  from assms c obtain p where ne: "headerLoop c \<noteq> []"
    and sk: "skipAnnotation ?mdr off = Returns (p, r)"
    by (auto simp: NewMDDataReader_def os_Open_def os_Seek_def getInsertStatementHeader_def
                   Let_def
             split: if_splits outcome.splits)
  from skipAnnotation_stmtHeader [OF sk] have "stmtHeader r = headerLoop c" by simp
  with headerLoop_headerShape [OF ne] show ?thesis by simp
qed

lemma MDDataReader_Read_stmtHeader:
  "MDDataReader_Read r m = Returns (res, logs, r') \<Longrightarrow> stmtHeader r' = stmtHeader r"
  by (auto simp: MDDataReader_Read_def acquireBufferReader_def Let_def
           split: if_splits option.splits outcome.splits prod.splits)

lemma readCalls_stmtHeader:
  "readCalls r ns = Returns (rs, r') \<Longrightarrow> stmtHeader r' = stmtHeader r"
proof (induction ns arbitrary: r rs)
  case Nil
  then show ?case by simp
next
  case (Cons n ns)
  from Cons.prems obtain res logs r1 rs1 where
    "MDDataReader_Read r n = Returns (res, logs, r1)" "readCalls r1 ns = Returns (rs1, r')"
    by (auto split: outcome.splits)
  with Cons.IH MDDataReader_Read_stmtHeader show ?case by metis
qed

lemma scenarioReader_constructed:
  "NewMDDataReader (oneFile ''dump.sql'' scenarioFile) ''dump.sql'' 0 = Returns (Inr scenarioReader)"
  by code_simp

lemma raggedReader_constructed:
  "NewMDDataReader (oneFile ''dump.sql'' ''INSERT INTO t VALUES\<newline>(1)\<newline>'') ''dump.sql'' 0
     = Returns (Inr raggedReader)"
  by code_simp

section \<open>Reading a dump file in one pass and in two\<close>

lemma suffix_last: "suffix e s \<Longrightarrow> e \<noteq> [] \<Longrightarrow> last e = last s"
  by (auto simp: suffix_def)

lemma prefix_hd: "prefix e s \<Longrightarrow> e \<noteq> [] \<Longrightarrow> hd e = hd s"
  by (auto simp: prefix_def)

lemma spaceRunes_last:
  "e \<in> set spaceRunes \<Longrightarrow>
     last e \<noteq> CHR '','' \<and> last e \<noteq> CHR '';'' \<and> last e \<noteq> CHR ''S''
     \<and> last e \<noteq> CHR ''s'' \<and> last e \<noteq> CHR 0xBF"
  by (auto simp: spaceRunes_def)

lemma spaceRunes_first:
  "e \<in> set spaceRunes \<Longrightarrow> hd e \<noteq> CHR ''('' \<and> hd e \<noteq> CHR ''I'' \<and> hd e \<noteq> CHR ''i''"
  by (auto simp: spaceRunes_def)

lemma spaceRunes_newline:
  "e \<in> set spaceRunes \<Longrightarrow> last e = CHR 0x0A \<Longrightarrow> e = [CHR 0x0A]"
  by (auto simp: spaceRunes_def)

lemma newline_spaceRune: "[CHR 0x0A] \<in> set spaceRunes"
  by (simp add: spaceRunes_def)

lemma solid_leadingSpace: "solid s \<Longrightarrow> leadingSpace (s @ x) = None"
proof -
  assume s: "solid s"
  have "\<not> prefix e (s @ x)" if e: "e \<in> set spaceRunes" for e
  proof
    assume "prefix e (s @ x)"
    with spaceRunes_nonempty [OF e] have "hd e = hd (s @ x)" by (simp add: prefix_hd)
    with s spaceRunes_first [OF e] show False by (auto simp: solid_def)
  qed
  then show ?thesis by (auto simp: leadingSpace_def find_None_iff)
qed

lemma solid_trailingSpace: "solid s \<Longrightarrow> trailingSpace s = None"
proof -
  assume s: "solid s"
  have "\<not> suffix e s" if e: "e \<in> set spaceRunes" for e
  proof
    assume "suffix e s"
    with spaceRunes_nonempty [OF e] have "last e = last s" by (simp add: suffix_last)
    with s spaceRunes_last [OF e] show False by (auto simp: solid_def)
  qed
  then show ?thesis by (auto simp: trailingSpace_def find_None_iff)
qed

lemma trailingSpace_newline: "trailingSpace (s @ [CHR 0x0A]) = Some [CHR 0x0A]"
proof (cases "trailingSpace (s @ [CHR 0x0A])")
  case None
  then have "\<not> suffix [CHR 0x0A] (s @ [CHR 0x0A])"
    using newline_spaceRune by (auto simp: trailingSpace_def find_None_iff)
  then show ?thesis by simp
next
  case (Some e)
  from trailingSpace_Some [OF Some] have e: "e \<in> set spaceRunes" "suffix e (s @ [CHR 0x0A])"
    by simp_all
  with spaceRunes_nonempty [OF e(1)] have "last e = CHR 0x0A"
    using suffix_last by fastforce
  with spaceRunes_newline [OF e(1)] Some show ?thesis by simp
qed

lemma TrimSpace_solid: "solid s \<Longrightarrow> TrimSpace s = s"
  using solid_leadingSpace [of s "[]"] solid_trailingSpace [of s]
  by (simp add: TrimSpace_def TrimLeft.simps [of s] TrimRight.simps [of s])

lemma TrimSpace_solid_line: "solid s \<Longrightarrow> TrimSpace (s @ [CHR 0x0A]) = s"
  using solid_leadingSpace [of s "[CHR 0x0A]"] solid_trailingSpace [of s]
    trailingSpace_newline [of s]
  by (simp add: TrimSpace_def TrimLeft.simps [of "s @ [CHR 0x0A]"]
        TrimRight.simps [of "s @ [CHR 0x0A]"] TrimRight.simps [of s])

lemma solid_append: "solid a \<Longrightarrow> solid b \<Longrightarrow> solid (a @ b)"
  by (auto simp: solid_def)

lemma valueRow_solid: "valueRow t r \<Longrightarrow> t = CHR '','' \<or> t = CHR '';'' \<Longrightarrow> solid r"
  by (auto simp: valueRow_def solid_def)

lemma ReadBytes_line:
  assumes "CHR 0x0A \<notin> set l"
  shows "ReadBytes (l @ [CHR 0x0A] @ rest) = (l @ [CHR 0x0A], rest, False)"
proof -
  from assms have "dropWhile (\<lambda>c. c \<noteq> CHR 0x0A) (l @ [CHR 0x0A] @ rest) = CHR 0x0A # rest"
    by (auto simp: dropWhile_append3)
  moreover from assms have "takeWhile (\<lambda>c. c \<noteq> CHR 0x0A) (l @ [CHR 0x0A] @ rest) = l"
    by (auto simp: takeWhile_tail)
  ultimately show ?thesis by (simp add: ReadBytes_def)
qed

lemma ReadBytes_Nil: "ReadBytes [] = ([], [], True)"
  by (simp add: ReadBytes_def)

lemma TrimSpace_Nil: "TrimSpace [] = []"
  by code_simp

lemma headerShape_solid: "headerShape H \<Longrightarrow> solid H"
  by (auto simp: headerShape_def solid_def)

lemma withHeader_prefix:
  "st = [] \<or> prefix H st \<Longrightarrow> prefix H (withHeader H st)"
  by (auto simp: withHeader_def)

lemma withHeader_hd:
  assumes "headerShape H" and "st = [] \<or> prefix H st"
  shows "withHeader H st \<noteq> [] \<and> (hd (withHeader H st) = CHR ''I'' \<or> hd (withHeader H st) = CHR ''i'')"
proof -
  from assms(1) have ne: "H \<noteq> []" and hd: "hd H = CHR ''I'' \<or> hd H = CHR ''i''"
    by (auto simp: headerShape_def)
  from withHeader_prefix [OF assms(2)] obtain t where "withHeader H st = H @ t"
    by (auto simp: prefix_def)
  with ne hd show ?thesis by simp
qed

lemma valueRow_not_prefix:
  assumes "headerShape H" and "valueRow t r"
  shows "\<not> prefix H r"
proof
  assume "prefix H r"
  moreover from assms(1) have "H \<noteq> []" by (auto simp: headerShape_def)
  ultimately have "hd H = hd r" by (rule prefix_hd)
  with assms show False by (auto simp: headerShape_def valueRow_def)
qed

lemma valueRow_not_comment: "valueRow t r \<Longrightarrow> \<not> isComment r"
  by (auto simp: valueRow_def isComment_def)

lemma processLine_row:
  assumes "headerShape H" and "valueRow (CHR '','') r" and "st = [] \<or> prefix H st"
  shows "processLine H acc st r = Returns (acc, withHeader H st @ r)"
proof -
  from assms(2) have "r \<noteq> []" "last r = CHR '',''" by (simp_all add: valueRow_def)
  then have "last (withHeader H st @ r) \<noteq> CHR '';''" by simp
  with valueRow_not_prefix [OF assms(1,2)] show ?thesis
    by (auto simp: processLine_def Let_def withHeader_def)
qed

lemma solid_statement:
  assumes "headerShape H" and "st = [] \<or> prefix H st" and "valueRow t r"
    and "t = CHR '','' \<or> t = CHR '';''"
  shows "solid (withHeader H st @ r)"
  using withHeader_hd [OF assms(1,2)] assms(3,4)
  by (auto simp: solid_def valueRow_def)

lemma processLine_final:
  assumes "headerShape H" and "valueRow (CHR '';'') r" and "st = [] \<or> prefix H st"
  shows "processLine H acc st r = Returns ((fst acc @ [withHeader H st @ r], snd acc), [])"
proof -
  let ?s = "withHeader H st @ r"
  from assms(2) have r: "r \<noteq> []" "last r = CHR '';''" by (simp_all add: valueRow_def)
  from solid_statement [OF assms(1,3,2)] have ts: "TrimSpace ?s = ?s"
    by (simp add: TrimSpace_solid)
  from withHeader_prefix [OF assms(3)] have p: "prefix H ?s" by (auto simp: prefix_def)
  have "length H \<le> length (withHeader H st)"
    using withHeader_prefix [OF assms(3)] by (simp add: prefix_length_le)
  moreover from r have "0 < length r" by simp
  ultimately have len: "length ?s \<noteq> length H" unfolding length_append by linarith
  from r have suf: "suffix '';'' ?s"
    by (metis append_butlast_last_id suffix_appendI suffix_order.order_refl append.assoc
          suffixI)
  from ts p len suf r have "appendSQL H acc ?s = Returns (fst acc @ [?s], snd acc)"
    by (simp add: appendSQL_def Let_def)
  moreover from r have "last ?s = CHR '';''" by simp
  ultimately show ?thesis
    using valueRow_not_prefix [OF assms(1,2)]
    by (auto simp: processLine_def Let_def withHeader_def)
qed

lemma linesOf_Cons: "linesOf (l # ls) = l @ [CHR 0x0A] @ linesOf ls"
  by (simp add: linesOf_def)

lemma linesOf_Nil: "linesOf [] = []"
  by (simp add: linesOf_def)

lemma length_linesOf_Cons:
  "int (length (linesOf (l # ls))) = int (length l) + 1 + int (length (linesOf ls))"
  by (simp add: linesOf_def)

lemma readLoop_value_line:
  assumes "valueRow t r" and "t = CHR '','' \<or> t = CHR '';''"
  shows "readLoop H m (r @ [CHR 0x0A] @ rest) st n acc =
           (case processLine H acc st r of
              Panics p \<Rightarrow> Panics p
            | Hangs \<Rightarrow> Hangs
            | Returns (acc', st') \<Rightarrow>
                if n + int (length r) + 1 \<ge> m
                then Returns (acc', st', Some (n + int (length r) + 1))
                else readLoop H m rest st' (n + int (length r) + 1) acc')"
proof -
  from assms(1) have nl: "CHR 0x0A \<notin> set r" and ne: "r \<noteq> []" by (simp_all add: valueRow_def)
  have rb: "ReadBytes (r @ [CHR 0x0A] @ rest) = (r @ [CHR 0x0A], rest, False)"
    by (rule ReadBytes_line [OF nl])
  have ts: "TrimSpace (r @ [CHR 0x0A]) = r"
    using valueRow_solid [OF assms] by (rule TrimSpace_solid_line)
  from readLoop_line [OF rb, of H m st n acc] ts ne valueRow_not_comment [OF assms(1)]
  show ?thesis by (simp add: ac_simps split: outcome.splits prod.splits)
qed

lemma readLoop_rows:
  assumes "headerShape H" and "\<forall>r\<in>set rs. valueRow (CHR '','') r" and "st = [] \<or> prefix H st"
  shows "readLoop H m (linesOf rs @ rest) st n acc =
           (case reach m n rs of
              Some k \<Rightarrow>
                Returns (acc, withHeader H st @ concat (take k rs),
                         Some (n + int (length (linesOf (take k rs)))))
            | None \<Rightarrow>
                readLoop H m rest (if rs = [] then st else withHeader H st @ concat rs)
                  (n + int (length (linesOf rs))) acc)"
  using assms(2,3)
proof (induction rs arbitrary: st n)
  case Nil
  then show ?case by (simp add: linesOf_Nil)
next
  case (Cons r rs)
  from Cons.prems have r: "valueRow (CHR '','') r" and rs: "\<forall>r\<in>set rs. valueRow (CHR '','') r"
    by simp_all
  let ?st = "withHeader H st @ r"
  let ?n = "n + int (length r) + 1"
  have step: "readLoop H m (linesOf (r # rs) @ rest) st n acc =
          (if ?n \<ge> m then Returns (acc, ?st, Some ?n)
           else readLoop H m (linesOf rs @ rest) ?st ?n acc)"
    using readLoop_value_line [OF r, of H m "linesOf rs @ rest" st n acc]
      processLine_row [OF assms(1) r Cons.prems(2)]
    by (simp add: linesOf_Cons)
  have st': "?st = [] \<or> prefix H ?st"
    using withHeader_prefix [OF Cons.prems(2)] by (auto simp: prefix_def)
  have wh: "withHeader H ?st = ?st"
    using r by (simp add: withHeader_def valueRow_def)
  show ?case
  proof (cases "?n \<ge> m")
    case True
    with step show ?thesis by (simp add: linesOf_Cons linesOf_Nil)
  next
    case False
    with step Cons.IH [OF rs st', of ?n] wh show ?thesis
      by (auto simp: length_linesOf_Cons add.assoc split: option.splits)
  qed
qed

lemma readLoop_final:
  assumes "headerShape H" and "valueRow (CHR '';'') r" and "st = [] \<or> prefix H st"
  shows "readLoop H m (linesOf [r]) st n acc =
           Returns ((fst acc @ [withHeader H st @ r], snd acc), [],
                    if m \<le> n + int (length r) + 1 then Some (n + int (length r) + 1) else None)"
proof -
  have "readLoop H m [] [] k a = Returns (a, [], None)" if "\<not> m \<le> k" for k a
    using readLoop_blank [OF ReadBytes_Nil TrimSpace_Nil, of H m "[]" k a] that by simp
  with readLoop_value_line [OF assms(2), of H m "[]" st n acc]
    processLine_final [OF assms]
  show ?thesis by (simp add: linesOf_def)
qed

lemma foldOrbit_pattern_no_newline:
  "\<forall>p\<in>set ''INSERT INTO  VALUES''. \<forall>e\<in>set (foldOrbit p). CHR 0x0A \<notin> set e"
  by code_simp

lemma matchLit_no_newline:
  "matchLit ps s = Some n \<Longrightarrow> \<forall>p\<in>set ps. \<forall>e\<in>set (foldOrbit p). CHR 0x0A \<notin> set e \<Longrightarrow>
     CHR 0x0A \<notin> set (take n s)"
proof (induction ps arbitrary: s n)
  case Nil
  then show ?case by simp
next
  case (Cons p ps)
  from Cons.prems(1) obtain k m where k: "matchChar p s = Some k"
    and m: "matchLit ps (drop k s) = Some m" and n: "n = k + m"
    by (auto split: option.splits)
  from matchChar_Some [OF k] obtain e where
    e: "e \<in> set (foldOrbit p)" "prefix e s" "k = length e" by blast
  then have "take k s = e" by (auto simp: prefix_def)
  with e(1) Cons.prems(2) have a: "CHR 0x0A \<notin> set (take k s)" by simp
  from Cons.IH [OF m] Cons.prems(2) have b: "CHR 0x0A \<notin> set (take m (drop k s))" by simp
  have "take n s = take k s @ take m (drop k s)" using n by (simp add: take_add)
  with a b show ?case by simp
qed

lemma matchTail_no_newline:
  "matchTail s = Some n \<Longrightarrow> CHR 0x0A \<notin> set (take n s)"
proof (induction s arbitrary: n)
  case Nil
  then show ?case by simp
next
  case (Cons c cs)
  show ?case
  proof (cases "c \<noteq> CHR 0x0A \<and> matchTail cs \<noteq> None")
    case True
    then obtain n' where n': "matchTail cs = Some n'" by auto
    with True Cons.prems have n: "n = Suc n'" by simp
    from Cons.IH [OF n'] True n show ?thesis by auto
  next
    case False
    with Cons.prems have "matchLit '' VALUES'' (c # cs) = Some n"
      by (auto split: if_splits option.splits)
    from matchLit_no_newline [OF this] foldOrbit_pattern_no_newline show ?thesis by simp
  qed
qed

lemma matchAt_no_newline:
  assumes "matchAt s = Some n"
  shows "CHR 0x0A \<notin> set (take n s)"
proof -
  from assms obtain k m where k: "matchLit ''INSERT INTO '' s = Some k"
    and m: "matchTail (drop k s) = Some m" and n: "n = k + m"
    by (auto simp: matchAt_def split: option.splits)
  from matchLit_no_newline [OF k] foldOrbit_pattern_no_newline
  have a: "CHR 0x0A \<notin> set (take k s)" by simp
  have "take n s = take k s @ take m (drop k s)" using n by (simp add: take_add)
  with a matchTail_no_newline [OF m] show ?thesis by simp
qed

lemma headerLine_props:
  assumes "headerLine H"
  shows "headerShape H" and "CHR 0x0A \<notin> set H"
proof -
  from assms FindStringIndex_Some [of "H @ [CHR 0x0A]" 0 "length H"]
  have m: "matchAt (H @ [CHR 0x0A]) = Some (length H)" by (simp add: headerLine_def)
  from matchAt_Some [OF m] show "headerShape H" by simp
  from matchAt_no_newline [OF m] show "CHR 0x0A \<notin> set H" by simp
qed

lemma wrap64_id: "- (2 ^ 63) \<le> x \<Longrightarrow> x < 2 ^ 63 \<Longrightarrow> wrap64 x = x"
  by (simp add: wrap64_def)

lemma MDDataReader_Read_at:
  assumes at: "readerAt r H c p" and p: "0 \<le> p" "p < int (length c)"
    and m: "0 < m" "2 * m \<le> maxAlloc"
    and buf: "buffer r \<noteq> None \<or> bufferSize r < 2 * m"
    and loop: "readLoop H m (drop (nat p) c) [] 0 ([], []) = Returns (acc, st, sk)"
    and fin: "(if length st > 0 then appendSQL H acc st else Returns acc) = Returns (stmts, logs)"
  shows "\<exists>r'. MDDataReader_Read r m = Returns (Inr stmts, logs, r')
           \<and> readerAt r' H c (case sk of Some k \<Rightarrow> p + k | None \<Rightarrow> int (length c))
           \<and> buffer r' \<noteq> None"
proof -
  let ?h = "\<lparr>content = c, fpos = p, closed = False\<rparr>"
  let ?r1 = "if 2 * m > bufferSize r
             then r\<lparr>bufferSize := 2 * m, buffer := Some (max 16 (2 * m))\<rparr> else r"
  from m have m48: "m \<le> 2 ^ 47" by (simp add: maxAlloc_def)
  with m have w: "wrap64 (2 * m) = 2 * m" "wrap64 (m + 4096) = m + 4096"
    by (simp_all add: wrap64_id)
  from m m48 have cap: "\<not> m + 4096 < 0" "\<not> maxAlloc < m + 4096" "\<not> maxAlloc < max 16 (2 * m)"
    by (simp_all add: maxAlloc_def)
  have acq: "acquireBufferReader r (wrap64 (2 * m)) = Returns ?r1"
    using cap by (simp add: acquireBufferReader_def w)
  from at have h: "fd r = Some ?h" "stmtHeader r = H" "fsize r = int (length c)"
    by (simp_all add: readerAt_def)
  from h p have cur: "currOffset r = p" "\<not> currOffset r \<ge> fsize r"
    by (simp_all add: currOffset_def)
  from buf have b1: "buffer ?r1 \<noteq> None"
    by auto
  have un: "unread ?h = drop (nat p) c" by (simp add: unread_def)
  have sk0: "0 \<le> k" if "sk = Some k" for k
    using readLoop_seek_bound loop that by fastforce
  let ?h' = "case sk of None \<Rightarrow> atEOF ?h
             | Some n \<Rightarrow> (case os_Seek ?h (p + n) of Inr h2 \<Rightarrow> h2 | Inl e \<Rightarrow> atEOF ?h)"
  have h': "?h' = \<lparr>content = c, fpos = (case sk of Some k \<Rightarrow> p + k | None \<Rightarrow> int (length c)),
                    closed = False\<rparr>"
    using p sk0 by (cases sk) (simp_all add: atEOF_def os_Seek_def)
  have "MDDataReader_Read r m = Returns (Inr stmts, logs, ?r1\<lparr>fd := Some ?h'\<rparr>)"
    using cur b1 w(2) cap(1,2) h un loop fin
    by (auto simp: MDDataReader_Read_def acq Let_def simp del: split_paired_Ex)
  moreover have "readerAt (?r1\<lparr>fd := Some ?h'\<rparr>) H c
                   (case sk of Some k \<Rightarrow> p + k | None \<Rightarrow> int (length c))"
    using h unfolding h' by (simp add: readerAt_def)
  moreover have "buffer (?r1\<lparr>fd := Some ?h'\<rparr>) \<noteq> None" using b1 by simp
  ultimately show ?thesis by blast
qed

lemma reach_Some:
  "reach m n rs = Some k \<Longrightarrow>
     1 \<le> k \<and> k \<le> length rs \<and> m \<le> n + int (length (linesOf (take k rs)))"
proof (induction rs arbitrary: n k)
  case Nil
  then show ?case by simp
next
  case (Cons l ls)
  show ?case
  proof (cases "m \<le> n + int (length l) + 1")
    case True
    with Cons.prems have "k = 1" by simp
    with True show ?thesis by (simp add: linesOf_def)
  next
    case False
    with Cons.prems obtain k' where k': "reach m (n + int (length l) + 1) ls = Some k'"
      and k: "k = Suc k'" by auto
    from Cons.IH [OF k'] k show ?thesis by (simp add: length_linesOf_Cons)
  qed
qed

lemma reach_large:
  "n + int (length (linesOf rs)) < m \<Longrightarrow> reach m n rs = None"
proof (induction rs arbitrary: n)
  case Nil
  then show ?case by simp
next
  case (Cons l ls)
  from Cons.prems have "n + int (length l) + 1 + int (length (linesOf ls)) < m"
    by (simp add: length_linesOf_Cons)
  with Cons.IH [of "n + int (length l) + 1"] show ?case by simp
qed

lemma linesOf_append: "linesOf (xs @ ys) = linesOf xs @ linesOf ys"
  by (simp add: linesOf_def)

lemma valueRows_split:
  "valueRows rows \<Longrightarrow>
     rows \<noteq> [] \<and> (\<forall>r\<in>set (butlast rows). valueRow (CHR '','') r)
     \<and> valueRow (CHR '';'') (last rows)"
  by (induction rows rule: valueRows.induct) auto

lemma valueRows_drop: "valueRows rows \<Longrightarrow> k < length rows \<Longrightarrow> valueRows (drop k rows)"
proof (induction rows arbitrary: k rule: valueRows.induct)
  case 1
  then show ?case by simp
next
  case (2 r)
  then show ?case by simp
next
  case (3 r v va)
  then show ?case by (cases k) auto
qed

lemma readLoop_body:
  assumes "headerShape H" and "valueRows rows" and "st = [] \<or> prefix H st"
  shows "readLoop H m (linesOf rows) st n acc =
           (case reach m n (butlast rows) of
              Some k \<Rightarrow>
                Returns (acc, withHeader H st @ concat (take k rows),
                         Some (n + int (length (linesOf (take k rows)))))
            | None \<Rightarrow>
                Returns ((fst acc @ [withHeader H st @ concat rows], snd acc), [],
                         if m \<le> n + int (length (linesOf rows))
                         then Some (n + int (length (linesOf rows))) else None))"
proof -
  let ?mids = "butlast rows" and ?fin = "last rows"
  from valueRows_split [OF assms(2)] have ne: "rows \<noteq> []"
    and mids: "\<forall>r\<in>set ?mids. valueRow (CHR '','') r" and fin: "valueRow (CHR '';'') ?fin"
    by simp_all
  from ne have rows: "rows = ?mids @ [?fin]" by simp
  have lo: "linesOf rows = linesOf ?mids @ linesOf [?fin]"
    by (subst rows) (rule linesOf_append)
  have cc: "concat rows = concat ?mids @ ?fin"
    by (subst rows) simp
  show ?thesis
  proof (cases "reach m n ?mids")
    case (Some k)
    from reach_Some [OF Some] have "k \<le> length ?mids" by simp
    moreover have "length ?mids = length rows - 1" by simp
    moreover from ne have "0 < length rows" by simp
    ultimately have "k < length rows" by linarith
    then have tk: "take k ?mids = take k rows" by (rule take_butlast)
    from readLoop_rows [OF assms(1) mids assms(3), of m "linesOf [?fin]" n acc] Some tk lo
    show ?thesis by simp
  next
    case None
    let ?st = "if ?mids = [] then st else withHeader H st @ concat ?mids"
    have st': "?st = [] \<or> prefix H ?st"
      using assms(3) withHeader_prefix [OF assms(3)] by (auto simp: prefix_def)
    have wh: "withHeader H ?st @ ?fin = withHeader H st @ concat rows"
      using withHeader_hd [OF assms(1,3)] by (auto simp: cc withHeader_def)
    have "length (linesOf [?fin]) = length ?fin + 1" by (simp add: linesOf_def)
    then have len: "n + int (length (linesOf ?mids)) + int (length ?fin) + 1
                 = n + int (length (linesOf rows))"
      by (simp add: lo)
    from readLoop_rows [OF assms(1) mids assms(3), of m "linesOf [?fin]" n acc] None lo
    have "readLoop H m (linesOf rows) st n acc =
            readLoop H m (linesOf [?fin]) ?st (n + int (length (linesOf ?mids))) acc"
      by simp
    also from readLoop_final [OF assms(1) fin st', of m "n + int (length (linesOf ?mids))" acc]
    have "\<dots> = Returns ((fst acc @ [withHeader H st @ concat rows], snd acc), [],
                    if m \<le> n + int (length (linesOf rows))
                    then Some (n + int (length (linesOf rows))) else None)"
      unfolding wh len by simp
    finally show ?thesis using None by simp
  qed
qed

lemma concat_butlast_last: "g \<noteq> [] \<Longrightarrow> concat g = concat (butlast g) @ last g"
  by (induction g) auto

lemma last_suffix: "s \<noteq> [] \<Longrightarrow> suffix [c] s \<longleftrightarrow> last s = c"
proof -
  assume "s \<noteq> []"
  then have "s = butlast s @ [last s]" by simp
  then have "suffix [c] s \<longleftrightarrow> suffix [c] (butlast s @ [last s])" by simp
  also have "\<dots> \<longleftrightarrow> last s = c"
    by (auto simp: suffix_def)
  finally show ?thesis .
qed

lemma appendSQL_header_only:
  assumes "headerShape H"
  shows "appendSQL H acc H = Returns acc"
  using TrimSpace_solid [OF headerShape_solid [OF assms]] assms
  by (auto simp: appendSQL_def Let_def headerShape_def)

lemma appendSQL_partial:
  assumes "headerShape H" and "\<forall>r\<in>set g. valueRow (CHR '','') r" and "g \<noteq> []"
  shows "appendSQL H acc (H @ concat g) = Returns (fst acc @ synthesized H g, snd acc)"
proof -
  let ?s = "H @ concat g"
  from assms(2,3) have lg: "valueRow (CHR '','') (last g)" by simp
  then have "last g \<noteq> []" "last (last g) = CHR '',''" by (simp_all add: valueRow_def)
  moreover from assms(3) have "concat g = concat (butlast g) @ last g"
    by (rule concat_butlast_last)
  ultimately have cg: "concat g \<noteq> []" "last (concat g) = CHR '',''" by simp_all
  then have last: "last ?s = CHR '',''" by simp
  from assms(1) have "H \<noteq> []" by (auto simp: headerShape_def)
  then have "hd ?s = hd H" by simp
  with assms(1) cg have "solid ?s" by (auto simp: solid_def headerShape_def)
  then have ts: "TrimSpace ?s = ?s" by (rule TrimSpace_solid)
  from cg have len: "length ?s \<noteq> length H" by simp
  from cg last have suf: "suffix '','' ?s" "\<not> suffix '';'' ?s"
    by (simp_all add: last_suffix)
  from ts len suf show ?thesis
    by (auto simp: appendSQL_def Let_def synthesized_def fixup_def assms(3))
qed

lemma synthesized_all:
  assumes "valueRows rows"
  shows "synthesized H rows = [H @ concat rows]"
proof -
  from valueRows_split [OF assms] have ne: "rows \<noteq> []"
    and fin: "valueRow (CHR '';'') (last rows)" by simp_all
  from ne have "concat rows = concat (butlast rows) @ last rows"
    by (rule concat_butlast_last)
  with fin have "last (H @ concat rows) = CHR '';''" "H @ concat rows \<noteq> []"
    by (simp_all add: valueRow_def)
  then have "\<not> suffix '','' (H @ concat rows)"
    by (simp add: last_suffix)
  with ne show ?thesis by (simp add: synthesized_def fixup_def)
qed

lemma dumpFile_unfold: "dumpFile H rows = H @ [CHR 0x0A] @ linesOf rows"
  by (simp add: dumpFile_def linesOf_Cons)

lemma length_dumpFile:
  "int (length (dumpFile H rows)) = int (length H) + 1 + int (length (linesOf rows))"
  by (simp add: dumpFile_unfold)

lemma length_linesOf_take_drop:
  "length (linesOf (take k rows)) + length (linesOf (drop k rows)) = length (linesOf rows)"
  using linesOf_append [of "take k rows" "drop k rows"] by (metis append_take_drop_id length_append)

lemma linesOf_nonempty: "rows \<noteq> [] \<Longrightarrow> 0 < length (linesOf rows)"
  by (cases rows) (simp_all add: linesOf_def)

lemma headerLine_not_comment: "headerLine H \<Longrightarrow> \<not> prefix ''/*'' H"
proof
  assume h: "headerLine H" and p: "prefix ''/*'' H"
  from p have "hd H = CHR ''/''" by (auto simp: prefix_def)
  with headerLine_props(1) [OF h] show False by (simp add: headerShape_def)
qed

lemma processLine_header_line:
  assumes "headerLine H"
  shows "processLine H acc [] H = Returns (acc, H)"
proof -
  from headerLine_props(1) [OF assms] have "last H \<noteq> CHR '';''"
    by (auto simp: headerShape_def)
  then show ?thesis by (simp add: processLine_def)
qed

lemma readLoop_header_line:
  assumes "headerLine H"
  shows "readLoop H m (H @ [CHR 0x0A] @ rest) [] 0 ([], []) =
           (if m \<le> int (length H) + 1 then Returns (([], []), H, Some (int (length H) + 1))
            else readLoop H m rest H (int (length H) + 1) ([], []))"
proof -
  note hs = headerLine_props [OF assms]
  have rb: "ReadBytes (H @ [CHR 0x0A] @ rest) = (H @ [CHR 0x0A], rest, False)"
    by (rule ReadBytes_line [OF hs(2)])
  have ts: "TrimSpace (H @ [CHR 0x0A]) = H"
    by (rule TrimSpace_solid_line [OF headerShape_solid [OF hs(1)]])
  from hs(1) have ne: "H \<noteq> []" by (auto simp: headerShape_def)
  from headerLine_not_comment [OF assms] have nc: "\<not> isComment H" by (simp add: isComment_def)
  from readLoop_line [OF rb, of H m "[]" 0 "([], [])"] ts ne nc
    processLine_header_line [OF assms, of "([], [])"]
  show ?thesis by (simp add: ac_simps)
qed

lemma headerLoop_dumpFile:
  assumes "headerLine H"
  shows "headerLoop (dumpFile H rows) = H"
proof -
  have rb: "ReadBytes (dumpFile H rows) = (H @ [CHR 0x0A], linesOf rows, False)"
    unfolding dumpFile_unfold by (rule ReadBytes_line [OF headerLine_props(2) [OF assms]])
  from assms have "FindStringIndex (H @ [CHR 0x0A]) = Some (0, length H)"
    by (simp add: headerLine_def)
  with rb show ?thesis by (simp add: headerLoop.simps [of "dumpFile H rows"])
qed

lemma skipLoop_dumpFile:
  assumes "headerLine H"
  shows "skipLoop (dumpFile H rows) 0 = Some 0"
proof -
  have rb: "ReadBytes (dumpFile H rows) = (H @ [CHR 0x0A], linesOf rows, False)"
    unfolding dumpFile_unfold by (rule ReadBytes_line [OF headerLine_props(2) [OF assms]])
  have ts: "TrimSpace H = H"
    by (rule TrimSpace_solid [OF headerShape_solid [OF headerLine_props(1) [OF assms]]])
  from rb ts headerLine_not_comment [OF assms] show ?thesis
    by (simp add: skipLoop.simps [of "dumpFile H rows"] Let_def)
qed

lemma NewMDDataReader_dumpFile:
  assumes "fs path = Some (dumpFile H rows)" and "headerLine H"
  shows "\<exists>r0. NewMDDataReader fs path 0 = Returns (Inr r0)
           \<and> readerAt r0 H (dumpFile H rows) 0 \<and> bufferSize r0 = 0"
proof -
  from headerLine_props(1) [OF assms(2)] have ne: "H \<noteq> []" by (auto simp: headerShape_def)
  have un: "unread \<lparr>content = dumpFile H rows, fpos = 0, closed = False\<rparr> = dumpFile H rows"
    by (simp add: unread_def)
  show ?thesis
    using assms(1) ne headerLoop_dumpFile [OF assms(2), of rows]
      skipLoop_dumpFile [OF assms(2), of rows] un
    by (simp add: NewMDDataReader_def os_Open_def os_Seek_def getInsertStatementHeader_def
          skipAnnotation_def Let_def readerAt_def currOffset_def)
qed

lemma first_pass:
  assumes hl: "headerLine H" and vr: "valueRows rows"
    and at: "readerAt r H (dumpFile H rows) 0"
    and m: "0 < m" "2 * m \<le> maxAlloc"
    and buf: "buffer r \<noteq> None \<or> bufferSize r < 2 * m"
  shows "\<exists>k r'. k \<le> length rows
           \<and> MDDataReader_Read r m = Returns (Inr (synthesized H (take k rows)), [], r')
           \<and> readerAt r' H (dumpFile H rows) (int (length (dumpFile H (take k rows))))
           \<and> buffer r' \<noteq> None
           \<and> (int (length (dumpFile H rows)) \<le> m \<longrightarrow> k = length rows)"
proof -
  let ?c = "dumpFile H rows"
  let ?n = "int (length H) + 1"
  note hs = headerLine_props(1) [OF hl]
  from valueRows_split [OF vr] have ne: "rows \<noteq> []"
    and mids: "\<forall>r\<in>set (butlast rows). valueRow (CHR '','') r" by simp_all
  have pos: "(0::int) \<le> 0" "0 < int (length ?c)" by (simp_all add: dumpFile_unfold)
  have inp: "drop (nat 0) ?c = H @ [CHR 0x0A] @ linesOf rows" by (simp add: dumpFile_unfold)
  have total: "int (length ?c) = ?n + int (length (linesOf rows))" by (rule length_dumpFile)
  have whH: "withHeader H H = H" using hs by (auto simp: withHeader_def headerShape_def)
  have big: "?n < int (length ?c)" using linesOf_nonempty [OF ne] total by simp
  show ?thesis
  proof (cases "m \<le> ?n")
    case True
    have loop: "readLoop H m (drop (nat 0) ?c) [] 0 ([], []) = Returns (([], []), H, Some ?n)"
      unfolding inp using readLoop_header_line [OF hl, of m "linesOf rows"] True by simp
    have fin: "(if length H > 0 then appendSQL H ([], []) H else Returns ([], []))
                 = Returns ([], [])"
      using appendSQL_header_only [OF hs] by simp
    from MDDataReader_Read_at [OF at pos m buf loop fin] obtain r' where
      "MDDataReader_Read r m = Returns (Inr [], [], r')" "readerAt r' H ?c (0 + ?n)"
      "buffer r' \<noteq> None" by auto
    moreover have "int (length (dumpFile H (take 0 rows))) = 0 + ?n"
      by (simp add: length_dumpFile linesOf_Nil)
    moreover from True big have "\<not> int (length ?c) \<le> m" by simp
    ultimately show ?thesis
      by (intro exI [of _ 0] exI [of _ r']) (simp add: synthesized_def)
  next
    case False
    have body: "readLoop H m (drop (nat 0) ?c) [] 0 ([], []) =
                  readLoop H m (linesOf rows) H ?n ([], [])"
      unfolding inp using readLoop_header_line [OF hl, of m "linesOf rows"] False by simp
    show ?thesis
    proof (cases "reach m ?n (butlast rows)")
      case (Some k)
      from reach_Some [OF Some] have k: "1 \<le> k" "k \<le> length (butlast rows)"
        and mk: "m \<le> ?n + int (length (linesOf (take k (butlast rows))))" by simp_all
      from k ne have klt: "k < length rows" by (cases rows) (auto split: if_splits)
      then have tk: "take k (butlast rows) = take k rows" by (rule take_butlast)
      let ?g = "take k rows"
      from tk mids have g: "\<forall>r\<in>set ?g. valueRow (CHR '','') r"
        by (metis in_set_takeD)
      from k ne have gne: "?g \<noteq> []" by (cases rows) auto
      have loop: "readLoop H m (drop (nat 0) ?c) [] 0 ([], [])
                    = Returns (([], []), H @ concat ?g, Some (?n + int (length (linesOf ?g))))"
        unfolding body using readLoop_body [OF hs vr, of H m ?n "([], [])"] Some whH by simp
      have fin: "(if length (H @ concat ?g) > 0 then appendSQL H ([], []) (H @ concat ?g)
                  else Returns ([], [])) = Returns (synthesized H ?g, [])"
        using appendSQL_partial [OF hs g gne, of "([], [])"] headerShape_nonempty [OF hs]
        by simp
      from MDDataReader_Read_at [OF at pos m buf loop fin] obtain r' where
        "MDDataReader_Read r m = Returns (Inr (synthesized H ?g), [], r')"
        "readerAt r' H ?c (0 + (?n + int (length (linesOf ?g))))"
        "buffer r' \<noteq> None" by auto
      moreover have "int (length (dumpFile H ?g)) = 0 + (?n + int (length (linesOf ?g)))"
        by (simp add: length_dumpFile)
      moreover have "\<not> int (length ?c) \<le> m"
      proof -
        from klt have "drop k rows \<noteq> []" by simp
        from linesOf_nonempty [OF this] length_linesOf_take_drop [of k rows]
        have "int (length (linesOf ?g)) < int (length (linesOf rows))" by linarith
        with mk tk total show ?thesis by simp
      qed
      ultimately show ?thesis using klt
        by (intro exI [of _ k] exI [of _ r']) simp
    next
      case None
      let ?sk = "if m \<le> ?n + int (length (linesOf rows))
                 then Some (?n + int (length (linesOf rows))) else None"
      have loop: "readLoop H m (drop (nat 0) ?c) [] 0 ([], [])
                    = Returns (([H @ concat rows], []), [], ?sk)"
        unfolding body using readLoop_body [OF hs vr, of H m ?n "([], [])"] None whH by simp
      have fin: "(if length ([]::string) > 0 then appendSQL H ([H @ concat rows], []) []
                  else Returns ([H @ concat rows], [])) = Returns (synthesized H rows, [])"
        by (simp add: synthesized_all [OF vr])
      from MDDataReader_Read_at [OF at pos m buf loop fin] obtain r' where
        "MDDataReader_Read r m = Returns (Inr (synthesized H rows), [], r')"
        "readerAt r' H ?c (case ?sk of Some k \<Rightarrow> 0 + k | None \<Rightarrow> int (length ?c))"
        "buffer r' \<noteq> None" by auto
      moreover have "(case ?sk of Some k \<Rightarrow> 0 + k | None \<Rightarrow> int (length ?c)) = int (length ?c)"
        by (simp add: total)
      ultimately show ?thesis
        by (intro exI [of _ "length rows"] exI [of _ r']) simp
    qed
  qed
qed

lemma second_pass:
  assumes hl: "headerLine H" and vr: "valueRows rows" and k: "k < length rows"
    and at: "readerAt r H (dumpFile H rows) (int (length (dumpFile H (take k rows))))"
    and m: "int (length (dumpFile H rows)) \<le> m" "2 * m \<le> maxAlloc"
    and buf: "buffer r \<noteq> None \<or> bufferSize r < 2 * m"
  shows "\<exists>r'. MDDataReader_Read r m = Returns (Inr (synthesized H (drop k rows)), [], r')"
proof -
  let ?c = "dumpFile H rows"
  let ?p = "int (length (dumpFile H (take k rows)))"
  let ?rest = "drop k rows"
  note hs = headerLine_props(1) [OF hl]
  from valueRows_drop [OF vr k] have vr': "valueRows ?rest" .
  from valueRows_split [OF vr'] have ne: "?rest \<noteq> []" by simp
  have split: "?c = dumpFile H (take k rows) @ linesOf ?rest"
    using linesOf_append [of "H # take k rows" ?rest] by (simp add: dumpFile_def)
  then have inp: "drop (nat ?p) ?c = linesOf ?rest" by simp
  from split linesOf_nonempty [OF ne] have pos: "0 \<le> ?p" "?p < int (length ?c)" by simp_all
  from pos m have m0: "0 < m" by simp
  have rest_le: "int (length (linesOf ?rest)) \<le> int (length ?c)" using split by simp
  have "int (length (linesOf (butlast ?rest))) < int (length (linesOf ?rest))"
  proof -
    have "linesOf (butlast ?rest @ [last ?rest])
            = linesOf (butlast ?rest) @ linesOf [last ?rest]"
      by (rule linesOf_append)
    then have "linesOf ?rest = linesOf (butlast ?rest) @ linesOf [last ?rest]"
      unfolding append_butlast_last_id [OF ne] .
    moreover have "0 < length (linesOf [last ?rest])" by (simp add: linesOf_def)
    ultimately show ?thesis by simp
  qed
  with rest_le m have "0 + int (length (linesOf (butlast ?rest))) < m" by simp
  from reach_large [OF this] have none: "reach m 0 (butlast ?rest) = None" .
  let ?sk = "if m \<le> 0 + int (length (linesOf ?rest))
             then Some (0 + int (length (linesOf ?rest))) else None"
  have loop: "readLoop H m (drop (nat ?p) ?c) [] 0 ([], [])
                = Returns (([H @ concat ?rest], []), [], ?sk)"
    unfolding inp using readLoop_body [OF hs vr', of "[]" m 0 "([], [])"] none
    by (simp add: withHeader_def)
  have fin: "(if length ([]::string) > 0 then appendSQL H ([H @ concat ?rest], []) []
              else Returns ([H @ concat ?rest], [])) = Returns (synthesized H ?rest, [])"
    by (simp add: synthesized_all [OF vr'])
  from MDDataReader_Read_at [OF at pos m0 m(2) buf loop fin] show ?thesis by blast
qed

lemma read_at_end:
  assumes "readerAt r H c (int (length c))"
  shows "MDDataReader_Read r m = Returns (Inl EOF, [], r)"
  using assms by (simp add: MDDataReader_Read_def readerAt_def currOffset_def)

lemma readerAt_Tell: "readerAt r H c p \<Longrightarrow> MDDataReader_Tell r = p"
  by (simp add: readerAt_def MDDataReader_Tell_def currOffset_def)

text \<open>Resuming at the start of a row, by \<^verbatim>\<open>Seek\<close> or with a new reader.\<close>

lemma skipLoop_rows:
  assumes "valueRows rest"
  shows "skipLoop (linesOf rest) 0 = Some 0"
proof -
  from valueRows_split [OF assms] have ne: "rest \<noteq> []" by simp
  then obtain r rs where rest: "rest = r # rs" by (cases rest) auto
  from assms rest obtain t where vr: "valueRow t r" and t: "t = CHR '','' \<or> t = CHR '';''"
    by (cases rs) auto
  from vr have nl: "CHR 0x0A \<notin> set r" and hd: "hd r = CHR ''(''" and rne: "r \<noteq> []"
    by (simp_all add: valueRow_def)
  have rb: "ReadBytes (linesOf rest) = (r @ [CHR 0x0A], linesOf rs, False)"
    unfolding rest linesOf_Cons by (rule ReadBytes_line [OF nl])
  have ts: "TrimSpace r = r" by (rule TrimSpace_solid [OF valueRow_solid [OF vr t]])
  from hd rne have "\<not> prefix ''/*'' r" by (cases r) auto
  with rb ts show ?thesis by (simp add: skipLoop.simps [of "linesOf rest"] Let_def)
qed

lemma skipAnnotation_at_row:
  assumes at: "readerAt r H (dumpFile H rows) (int (length (dumpFile H (take k rows))))"
    and vr: "valueRows rows" and k: "k \<le> length rows"
  shows "skipAnnotation r (int (length (dumpFile H (take k rows))))
           = Returns (int (length (dumpFile H (take k rows))), r)"
proof -
  let ?c = "dumpFile H rows"
  let ?p = "int (length (dumpFile H (take k rows)))"
  let ?h = "\<lparr>content = ?c, fpos = ?p, closed = False\<rparr>"
  from at have h: "fd r = Some ?h" "fsize r = int (length ?c)" by (simp_all add: readerAt_def)
  have split: "?c = dumpFile H (take k rows) @ linesOf (drop k rows)"
    using linesOf_append [of "H # take k rows" "drop k rows"] by (simp add: dumpFile_def)
  then have un: "unread ?h = linesOf (drop k rows)" by (simp add: unread_def)
  from split have le: "?p \<le> int (length ?c)"
    by (metis length_append of_nat_le_iff le_add1)
  have keep: "r\<lparr>fd := Some ?h\<rparr> = r" using h by simp
  show ?thesis
  proof (cases "k < length rows")
    case True
    from skipLoop_rows [OF valueRows_drop [OF vr True]]
    have "skipLoop (unread ?h) 0 = Some 0" by (simp add: un)
    with h le keep show ?thesis
      by (simp add: skipAnnotation_def Let_def os_Seek_def currOffset_def)
  next
    case False
    with k have "drop k rows = []" by simp
    with un have "unread ?h = []" by (simp add: linesOf_Nil)
    then have sl: "skipLoop (unread ?h) 0 = None"
      by (simp add: skipLoop.simps [of "[]"] ReadBytes_Nil)
    from False k have "take k rows = rows" by simp
    then have "atEOF ?h = ?h" by (simp add: atEOF_def)
    with h sl keep show ?thesis
      by (simp add: skipAnnotation_def Let_def currOffset_def)
  qed
qed

lemma NewMDDataReader_at_row:
  assumes "fs path = Some (dumpFile H rows)" and "headerLine H" and "valueRows rows"
    and "k \<le> length rows"
  shows "\<exists>r. NewMDDataReader fs path (int (length (dumpFile H (take k rows)))) = Returns (Inr r)
           \<and> readerAt r H (dumpFile H rows) (int (length (dumpFile H (take k rows))))
           \<and> bufferSize r = 0"
proof -
  let ?c = "dumpFile H rows"
  let ?p = "int (length (dumpFile H (take k rows)))"
  let ?mdr = "\<lparr>fd = Some \<lparr>content = ?c, fpos = ?p, closed = False\<rparr>, file_r = path,
               fsize = int (length ?c), start = ?p, stmtHeader = H,
               bufferSize = 0, buffer = None\<rparr>"
  from headerLine_props(1) [OF assms(2)] have ne: "H \<noteq> []" by (auto simp: headerShape_def)
  have at: "readerAt ?mdr H ?c ?p" by (simp add: readerAt_def)
  from skipAnnotation_at_row [OF at assms(3,4)]
  have sa: "skipAnnotation ?mdr ?p = Returns (?p, ?mdr)" .
  have "NewMDDataReader fs path ?p = Returns (Inr ?mdr)"
    using assms(1) ne headerLoop_dumpFile [OF assms(2), of rows] sa
    by (simp add: NewMDDataReader_def os_Open_def os_Seek_def getInsertStatementHeader_def
          Let_def)
  with at show ?thesis by (intro exI [of _ ?mdr]) simp
qed

section \<open>How far a read runs past its budget\<close>
















section \<open>Emitted statements are well formed\<close>

text \<open>
  C1: every statement in a batch that \<^verbatim>\<open>MDDataReader.Read\<close> returns begins with the
  statement header of the reader and ends with the byte \<^verbatim>\<open>;\<close>; a statement that fails
  either test is not in the batch.
\<close>

theorem C1_emitted_statements_wellformed:
  "\<forall>s\<in>set (emitted (MDDataReader_Read r minSize)). prefix (stmtHeader r) s \<and> suffix '';'' s"
proof
  fix s
  assume s: "s \<in> set (emitted (MDDataReader_Read r minSize))"
  then obtain stmts logs r' where ret: "MDDataReader_Read r minSize = Returns (Inr stmts, logs, r')"
    and mem: "s \<in> set stmts"
    by (cases "MDDataReader_Read r minSize") (auto simp: emitted_def split: sum.splits)
  let ?H = "stmtHeader r"
  from ret mem obtain h acc st sk where
    loop: "readLoop ?H minSize (unread h) [] 0 ([], []) = Returns (acc, st, sk)"
    and fin: "(if length st > 0 then appendSQL ?H acc st else Returns acc) = Returns (stmts, logs)"
    by (auto simp: MDDataReader_Read_def acquireBufferReader_def Let_def
             split: if_splits option.splits outcome.splits prod.splits)
  from readLoop_wellFormed [OF loop] have "\<forall>x\<in>set (fst acc). wellFormed ?H x" by simp
  with fin have "\<forall>x\<in>set stmts. wellFormed ?H x"
    by (auto split: if_splits dest: appendSQL_wellFormed)
  with mem show "prefix ?H s \<and> suffix '';'' s" by (simp add: wellFormed_def)
qed

theorem C1_witness:
  "''INSERT INTO t VALUES(1),(2);'' \<in> set (emitted (MDDataReader_Read scenarioReader 31))
   \<and> prefix (stmtHeader scenarioReader) ''INSERT INTO t VALUES(1),(2);''
   \<and> suffix '';'' ''INSERT INTO t VALUES(1),(2);''"
proof -
  have m: "''INSERT INTO t VALUES(1),(2);'' \<in> set (emitted (MDDataReader_Read scenarioReader 31))"
    by code_simp
  from C1_emitted_statements_wellformed [of scenarioReader 31] m
  have "prefix (stmtHeader scenarioReader) ''INSERT INTO t VALUES(1),(2);''
        \<and> suffix '';'' ''INSERT INTO t VALUES(1),(2);''"
    by blast
  with m show ?thesis by blast
qed

section \<open>The region bound\<close>




text \<open>
  The hypothesis on comment lines is needed: \<^verbatim>\<open>Read\<close> skips such a line before it counts
  its bytes, so a \<^verbatim>\<open>Read\<close> that runs into the end of the file over comment lines leaves
  the position at the size of the file, whatever its budget. In the region of 30 bytes
  at offset 0 of the file below, one \<^verbatim>\<open>Read(100)\<close> moves the position to 42, the end of a
  line that begins at 34.
\<close>

lemma comment_lines_defeat_the_bound:
  "tellAfter
     (oneFile ''dump.sql'' ''INSERT INTO t VALUES\<newline>(1);\<newline>/* a */\<newline>/* b */\<newline>'')
     ''dump.sql'' 0 30 [100] = Some 42
   \<and> lineStart ''INSERT INTO t VALUES\<newline>(1);\<newline>/* a */\<newline>/* b */\<newline>'' 42 = 34"
proof -
  have "tellAfter
     (oneFile ''dump.sql'' ''INSERT INTO t VALUES\<newline>(1);\<newline>/* a */\<newline>/* b */\<newline>'')
     ''dump.sql'' 0 30 [100] = Some 42" by code_simp
  moreover have
    "lineStart ''INSERT INTO t VALUES\<newline>(1);\<newline>/* a */\<newline>/* b */\<newline>'' 42 = 34"
    by code_simp
  ultimately show ?thesis by blast
qed

section \<open>Resumption\<close>

text \<open>
  Take a dump file without annotation blocks in which every line ends in a newline, with
  the header line \<open>H\<close> and the value rows \<open>rows\<close>, and a reader constructed at offset 0.
  One \<^verbatim>\<open>Read\<close> with a budget \<open>N\<close> returns the statement for the first \<open>k\<close> rows, for some
  \<open>k\<close>, and leaves the file at the start offset plus the bytes consumed (the header line
  and \<open>k\<close> rows). Reading the remainder from there returns the statement for the other
  rows, be it with the same reader, after a \<^verbatim>\<open>Seek\<close> to the reported position (which
  changes nothing), or with a new reader constructed at the reported position; one
  \<^verbatim>\<open>Read\<close> over the whole file returns the statement for all rows. The rows of the two
  passes are, as a multiset, the rows of the one pass. (Budgets are positive and small
  enough for the buffers to be allocated; the budget \<open>M\<close> covers the file.)
\<close>

lemma terminated_file_two_passes:
  assumes "fs path = Some (dumpFile H rows)" and "headerLine H" and "valueRows rows"
    and "0 < N" and "2 * N \<le> maxAlloc"
    and "int (length (dumpFile H rows)) \<le> M" and "2 * M \<le> maxAlloc"
  shows "\<exists>r0 k r1 r3 r4.
           NewMDDataReader fs path 0 = Returns (Inr r0) \<and> k \<le> length rows
           \<and> MDDataReader_Read r0 N = Returns (Inr (synthesized H (take k rows)), [], r1)
           \<and> MDDataReader_Tell r1 = int (length (dumpFile H (take k rows)))
           \<and> emitted (MDDataReader_Read r1 M) = synthesized H (drop k rows)
           \<and> MDDataReader_Seek r1 (MDDataReader_Tell r1) = Returns (MDDataReader_Tell r1, r1)
           \<and> NewMDDataReader fs path (MDDataReader_Tell r1) = Returns (Inr r4)
           \<and> emitted (MDDataReader_Read r4 M) = synthesized H (drop k rows)
           \<and> MDDataReader_Read r0 M = Returns (Inr (synthesized H rows), [], r3)
           \<and> mset (take k rows) + mset (drop k rows) = mset rows"
proof -
  let ?c = "dumpFile H rows"
  from NewMDDataReader_dumpFile [of fs path H rows, OF assms(1,2)] obtain r0 where
    new: "NewMDDataReader fs path 0 = Returns (Inr r0)"
    and at0: "readerAt r0 H ?c 0" and b0: "bufferSize r0 = 0" by blast
  from assms(4) b0 have bufN: "buffer r0 \<noteq> None \<or> bufferSize r0 < 2 * N" by simp
  have "0 < int (length ?c)" by (simp add: dumpFile_unfold)
  with assms(6) have M0: "0 < M" by linarith
  with b0 have bufM: "buffer r0 \<noteq> None \<or> bufferSize r0 < 2 * M" by simp
  from first_pass [OF assms(2,3) at0 assms(4,5) bufN] obtain k r1 where
    k: "k \<le> length rows"
    and p1: "MDDataReader_Read r0 N = Returns (Inr (synthesized H (take k rows)), [], r1)"
    and at1: "readerAt r1 H ?c (int (length (dumpFile H (take k rows))))"
    and b1: "buffer r1 \<noteq> None" by blast
  note tell = readerAt_Tell [OF at1]
  from first_pass [OF assms(2,3) at0 M0 assms(7) bufM] assms(6) obtain r3 where
    one: "MDDataReader_Read r0 M = Returns (Inr (synthesized H rows), [], r3)" by auto
  have rest: "emitted (MDDataReader_Read r M) = synthesized H (drop k rows)"
    if at: "readerAt r H ?c (int (length (dumpFile H (take k rows))))"
      and buf: "buffer r \<noteq> None \<or> bufferSize r < 2 * M" for r
  proof (cases "k < length rows")
    case True
    from second_pass [OF assms(2,3) True at assms(6,7) buf] obtain r2 where
      "MDDataReader_Read r M = Returns (Inr (synthesized H (drop k rows)), [], r2)" by blast
    then show ?thesis by (simp add: emitted_def)
  next
    case False
    with k have kk: "k = length rows" by simp
    with at have "readerAt r H ?c (int (length ?c))" by simp
    from read_at_end [OF this, of M] kk show ?thesis
      by (simp add: emitted_def synthesized_def)
  qed
  from b1 have e2: "emitted (MDDataReader_Read r1 M) = synthesized H (drop k rows)"
    by (intro rest [OF at1]) simp
  from skipAnnotation_at_row [OF at1 assms(3) k]
  have sk: "MDDataReader_Seek r1 (MDDataReader_Tell r1) = Returns (MDDataReader_Tell r1, r1)"
    by (simp add: MDDataReader_Seek_def tell)
  from NewMDDataReader_at_row [of fs path H rows k, OF assms(1,2,3) k] obtain r4 where
    new4: "NewMDDataReader fs path (MDDataReader_Tell r1) = Returns (Inr r4)"
    and at4: "readerAt r4 H ?c (int (length (dumpFile H (take k rows))))"
    and b4: "bufferSize r4 = 0" unfolding tell by blast
  from b4 M0 have e4: "emitted (MDDataReader_Read r4 M) = synthesized H (drop k rows)"
    by (intro rest [OF at4]) simp
  have ms: "mset (take k rows) + mset (drop k rows) = mset rows"
    by (metis append_take_drop_id mset_append)
  from new k p1 tell e2 sk new4 e4 one ms show ?thesis by blast
qed

text \<open>
  C3: reading a file with a discoverable header in two passes, one \<^verbatim>\<open>Read\<close> covering
  the first \<open>N\<close> bytes and then the remainder from the position it reported, yields
  the rows of one pass over the file, for every budget \<open>N\<close>. The code departs from this
  on the file of the four lines without a newline after the last row. One \<^verbatim>\<open>Read(100)\<close>
  returns the rows \<^verbatim>\<open>(1)\<close>, \<^verbatim>\<open>(2)\<close>, \<^verbatim>\<open>(3)\<close>. \<^verbatim>\<open>Read(31)\<close> returns the rows \<^verbatim>\<open>(1)\<close>, \<^verbatim>\<open>(2)\<close>
  and reports the position 31, where the row \<^verbatim>\<open>(3);\<close> starts. A new reader constructed
  at 31 returns \<^verbatim>\<open>io.EOF\<close> and no row; so does the first reader after \<^verbatim>\<open>Seek(31)\<close>,
  which moves it to 35, the end of the file. The row \<^verbatim>\<open>(3)\<close> comes back only when the
  first reader goes on reading without a \<^verbatim>\<open>Seek\<close>.
\<close>

theorem C3_resumption_loses_unterminated_row:
  "openAndRead (oneFile ''dump.sql'' unterminatedFile) ''dump.sql'' 0 [100]
     = Returns (Inr [Inr [''INSERT INTO t VALUES(1),(2),(3);'']])
   \<and> readThenTell (oneFile ''dump.sql'' unterminatedFile) ''dump.sql'' 0 31
     = Returns (Inr (Inr [''INSERT INTO t VALUES(1),(2);''], 31))
   \<and> openAndRead (oneFile ''dump.sql'' unterminatedFile) ''dump.sql'' 31 [100]
     = Returns (Inr [Inl EOF])
   \<and> readSeekRead (oneFile ''dump.sql'' unterminatedFile) ''dump.sql'' 0 31 100
     = Returns (Inr (Inr [''INSERT INTO t VALUES(1),(2);''], 35, Inl EOF))
   \<and> openAndRead (oneFile ''dump.sql'' unterminatedFile) ''dump.sql'' 0 [31, 100]
     = Returns (Inr [Inr [''INSERT INTO t VALUES(1),(2);''], Inr [''INSERT INTO t VALUES(3);'']])"
proof -
  have a: "openAndRead (oneFile ''dump.sql'' unterminatedFile) ''dump.sql'' 0 [100]
     = Returns (Inr [Inr [''INSERT INTO t VALUES(1),(2),(3);'']])" by code_simp
  have b: "readThenTell (oneFile ''dump.sql'' unterminatedFile) ''dump.sql'' 0 31
     = Returns (Inr (Inr [''INSERT INTO t VALUES(1),(2);''], 31))" by code_simp
  have c: "openAndRead (oneFile ''dump.sql'' unterminatedFile) ''dump.sql'' 31 [100]
     = Returns (Inr [Inl EOF])" by code_simp
  have d: "readSeekRead (oneFile ''dump.sql'' unterminatedFile) ''dump.sql'' 0 31 100
     = Returns (Inr (Inr [''INSERT INTO t VALUES(1),(2);''], 35, Inl EOF))" by code_simp
  have e: "openAndRead (oneFile ''dump.sql'' unterminatedFile) ''dump.sql'' 0 [31, 100]
     = Returns (Inr [Inr [''INSERT INTO t VALUES(1),(2);''], Inr [''INSERT INTO t VALUES(3);'']])"
    by code_simp
  from a b c d e show ?thesis by blast
qed

text \<open>The same budgets on the file of the four lines, each ending in a newline.\<close>

lemma terminated_file_two_passes_example:
  "readThenTell (oneFile ''dump.sql'' scenarioFile) ''dump.sql'' 0 31
     = Returns (Inr (Inr [''INSERT INTO t VALUES(1),(2);''], 31))
   \<and> openAndRead (oneFile ''dump.sql'' scenarioFile) ''dump.sql'' 31 [100]
     = Returns (Inr [Inr [''INSERT INTO t VALUES(3);'']])
   \<and> readSeekRead (oneFile ''dump.sql'' scenarioFile) ''dump.sql'' 0 31 100
     = Returns (Inr (Inr [''INSERT INTO t VALUES(1),(2);''], 31, Inr [''INSERT INTO t VALUES(3);'']))"
proof -
  have b: "readThenTell (oneFile ''dump.sql'' scenarioFile) ''dump.sql'' 0 31
     = Returns (Inr (Inr [''INSERT INTO t VALUES(1),(2);''], 31))" by code_simp
  have c: "openAndRead (oneFile ''dump.sql'' scenarioFile) ''dump.sql'' 31 [100]
     = Returns (Inr [Inr [''INSERT INTO t VALUES(3);'']])" by code_simp
  have d: "readSeekRead (oneFile ''dump.sql'' scenarioFile) ''dump.sql'' 0 31 100
     = Returns (Inr (Inr [''INSERT INTO t VALUES(1),(2);''], 31, Inr [''INSERT INTO t VALUES(3);'']))"
    by code_simp
  from b c d show ?thesis by blast
qed

section \<open>The scenario of four lines\<close>

text \<open>
  C4, as stated: on the file of the four lines \<^verbatim>\<open>INSERT INTO t VALUES\<close>, \<^verbatim>\<open>(1),\<close>,
  \<^verbatim>\<open>(2),\<close>, \<^verbatim>\<open>(3);\<close> the first \<^verbatim>\<open>Read(10)\<close> returns the one statement
  \<^verbatim>\<open>INSERT INTO t VALUES(1),(2);\<close> and the next the one statement
  \<^verbatim>\<open>INSERT INTO t VALUES(3);\<close>. This fails: the header line has 21 bytes, so the first
  call stops after it and returns no statement.
\<close>

theorem C4_first_read_is_empty:
  "openAndRead (oneFile ''dump.sql'' ''INSERT INTO t VALUES\<newline>(1),\<newline>(2),\<newline>(3);\<newline>'')
       ''dump.sql'' 0 [10, 10]
     \<noteq> Returns (Inr [Inr [''INSERT INTO t VALUES(1),(2);''], Inr [''INSERT INTO t VALUES(3);'']])
   \<and> openAndRead (oneFile ''dump.sql'' ''INSERT INTO t VALUES\<newline>(1),\<newline>(2),\<newline>(3);\<newline>'')
       ''dump.sql'' 0 [10]
     = Returns (Inr [Inr []])"
  by code_simp

text \<open>
  C4, amended: on that file (with or without a newline after the last line) a reader
  constructed at offset 0 returns no statement from the first \<^verbatim>\<open>Read(10)\<close>, exactly the
  statement \<^verbatim>\<open>INSERT INTO t VALUES(1),(2);\<close> from the second and exactly the statement
  \<^verbatim>\<open>INSERT INTO t VALUES(3);\<close> from the third.
\<close>

theorem C4_three_reads:
  "openAndRead (oneFile ''dump.sql'' ''INSERT INTO t VALUES\<newline>(1),\<newline>(2),\<newline>(3);\<newline>'')
       ''dump.sql'' 0 [10, 10, 10]
     = Returns (Inr [Inr [], Inr [''INSERT INTO t VALUES(1),(2);''],
                     Inr [''INSERT INTO t VALUES(3);'']])
   \<and> openAndRead (oneFile ''dump.sql'' ''INSERT INTO t VALUES\<newline>(1),\<newline>(2),\<newline>(3);'')
       ''dump.sql'' 0 [10, 10, 10]
     = Returns (Inr [Inr [], Inr [''INSERT INTO t VALUES(1),(2);''],
                     Inr [''INSERT INTO t VALUES(3);'']])"
  by code_simp

section \<open>Comment lines inside \<^verbatim>\<open>Read\<close>\<close>

text \<open>
  C5 says that a line of the shape \<^verbatim>\<open>/* ... */;\<close> between two value rows is skipped by
  \<^verbatim>\<open>Read\<close>. The test of \<^verbatim>\<open>Read\<close> asks for the suffix \<^verbatim>\<open>*/\<close>, which a line ending in
  \<^verbatim>\<open>*/;\<close> does not have: on the file below the bytes of the comment line are part of the
  first statement returned.
\<close>

theorem C5_comment_line_is_emitted:
  "openAndRead
     (oneFile ''dump.sql'' ''INSERT INTO t VALUES\<newline>(1),\<newline>/* comment */;\<newline>(2);\<newline>'')
     ''dump.sql'' 0 [100]
   = Returns (Inr [Inr [''INSERT INTO t VALUES(1),/* comment */;'', ''INSERT INTO t VALUES(2);'']])"
  by code_simp

section \<open>Annotation skipping at construction\<close>

text \<open>
  C6 says that construction leaves the position on the first byte of the first line that
  is no annotation. When that line is the last one and has no newline, the loop of
  \<^verbatim>\<open>skipAnnotation\<close> leaves at \<^verbatim>\<open>io.EOF\<close> before looking at it: in the file below the row
  \<^verbatim>\<open>(1);\<close> starts at byte 28, a reader constructed at offset 21 (the annotation line)
  reports position 32, the size of the file, and its first \<^verbatim>\<open>Read\<close> returns \<^verbatim>\<open>io.EOF\<close>.
\<close>

theorem C6_unterminated_line_is_skipped:
  "openAndTell (oneFile ''dump.sql'' ''INSERT INTO t VALUES\<newline>/*A*/;\<newline>(1);'') ''dump.sql'' 21
     = Returns (Inr 32)
   \<and> openAndRead (oneFile ''dump.sql'' ''INSERT INTO t VALUES\<newline>/*A*/;\<newline>(1);'') ''dump.sql'' 21 [100]
     = Returns (Inr [Inl EOF])"
  by code_simp

text \<open>The instance the specification names: two annotation lines, then the header line.\<close>

lemma skipAnnotation_two_annotation_lines:
  "openAndTell
     (oneFile ''dump.sql'' ''/*A*/;\<newline>/*B*/;\<newline>INSERT INTO t VALUES\<newline>(1),\<newline>(2);\<newline>'')
     ''dump.sql'' 0
   = Returns (Inr 14)"
  by code_simp

section \<open>Header detection\<close>

text \<open>
  C7 says that construction fails with \<^verbatim>\<open>ErrInsertStatementNotFound\<close> exactly when no line
  matches the pattern. The loop of \<^verbatim>\<open>getInsertStatementHeader\<close> leaves at \<^verbatim>\<open>io.EOF\<close>
  before matching the line read with it: a file whose only matching line has no newline
  after it is refused, although the pattern matches that line.
\<close>

theorem C7_unterminated_header_line_not_found:
  "FindStringIndex ''INSERT INTO t VALUES (1);'' = Some (0, 20)
   \<and> getInsertStatementHeader (oneFile ''dump.sql'' ''INSERT INTO t VALUES (1);'') ''dump.sql'' = []
   \<and> openAndTell (oneFile ''dump.sql'' ''INSERT INTO t VALUES (1);'') ''dump.sql'' 0
     = Returns (Inl ErrInsertStatementNotFound)"
  by code_simp

section \<open>Encoding errors\<close>

text \<open>The error branch of lines 50 to 52: an error of the decoder would be passed on as it is.\<close>

lemma decodeGB18030_decoder_error:
  "gb18030 data = Inl err \<Longrightarrow> decodeCharacterSet gb18030 data ''gb18030'' = Inl err"
  by (simp add: decodeCharacterSet_def decodeGB18030_def)

text \<open>
  C8: the GB18030 decoder reports bytes it cannot decode by writing U+FFFD to its output;
  its error is nil. When the decoder returns the bytes \<open>decoded\<close>, the result for
  \<^verbatim>\<open>gb18030\<close> is the error \<^verbatim>\<open>errInvalidSchemaEncoding\<close> if \<open>decoded\<close> contains U+FFFD
  anywhere, and \<open>decoded\<close> otherwise; the same holds for \<^verbatim>\<open>auto\<close> when the input is not
  valid UTF-8.
\<close>

theorem C8_gb18030_invalid_encoding:
  assumes "gb18030 data = Inr decoded"
  shows "decodeCharacterSet gb18030 data ''gb18030'' =
           (if ContainsRuneError decoded then Inl errInvalidSchemaEncoding else Inr decoded)
         \<and> (\<not> utf8_Valid data \<longrightarrow>
              decodeCharacterSet gb18030 data ''auto'' =
                (if ContainsRuneError decoded then Inl errInvalidSchemaEncoding
                 else Inr decoded))"
  using assms by (simp add: decodeCharacterSet_def decodeGB18030_def)

theorem C8_witness:
  "sampleDecoder [CHR 0x81] = Inr [CHR 0xEF, CHR 0xBF, CHR 0xBD]
   \<and> \<not> utf8_Valid [CHR 0x81]
   \<and> decodeCharacterSet sampleDecoder [CHR 0x81] ''gb18030'' = Inl errInvalidSchemaEncoding
   \<and> decodeCharacterSet sampleDecoder [CHR 0x81] ''auto'' = Inl errInvalidSchemaEncoding
   \<and> sampleDecoder [CHR 0xD6, CHR 0xD0] = Inr [CHR 0xE4, CHR 0xB8, CHR 0xAD]
   \<and> \<not> utf8_Valid [CHR 0xD6, CHR 0xD0]
   \<and> decodeCharacterSet sampleDecoder [CHR 0xD6, CHR 0xD0] ''gb18030''
       = Inr [CHR 0xE4, CHR 0xB8, CHR 0xAD]
   \<and> decodeCharacterSet sampleDecoder [CHR 0xD6, CHR 0xD0] ''auto''
       = Inr [CHR 0xE4, CHR 0xB8, CHR 0xAD]"
proof -
  have d1: "sampleDecoder [CHR 0x81] = Inr [CHR 0xEF, CHR 0xBF, CHR 0xBD]"
    by (simp add: sampleDecoder_def)
  have v1: "\<not> utf8_Valid [CHR 0x81]" by code_simp
  have c1: "ContainsRuneError [CHR 0xEF, CHR 0xBF, CHR 0xBD]" by code_simp
  have d2: "sampleDecoder [CHR 0xD6, CHR 0xD0] = Inr [CHR 0xE4, CHR 0xB8, CHR 0xAD]"
    by (simp add: sampleDecoder_def)
  have v2: "\<not> utf8_Valid [CHR 0xD6, CHR 0xD0]" by code_simp
  have c2: "\<not> ContainsRuneError [CHR 0xE4, CHR 0xB8, CHR 0xAD]" by code_simp
  from C8_gb18030_invalid_encoding [of sampleDecoder "[CHR 0x81]", OF d1] v1 c1
  have r1: "decodeCharacterSet sampleDecoder [CHR 0x81] ''gb18030'' = Inl errInvalidSchemaEncoding"
    "decodeCharacterSet sampleDecoder [CHR 0x81] ''auto'' = Inl errInvalidSchemaEncoding"
    by simp_all
  from C8_gb18030_invalid_encoding [of sampleDecoder "[CHR 0xD6, CHR 0xD0]", OF d2] v2 c2
  have r2: "decodeCharacterSet sampleDecoder [CHR 0xD6, CHR 0xD0] ''gb18030''
              = Inr [CHR 0xE4, CHR 0xB8, CHR 0xAD]"
    "decodeCharacterSet sampleDecoder [CHR 0xD6, CHR 0xD0] ''auto''
              = Inr [CHR 0xE4, CHR 0xB8, CHR 0xAD]"
    by simp_all
  from d1 v1 r1 d2 v2 r2 show ?thesis by blast
qed

section \<open>Closing twice\<close>

text \<open>
  C9, as stated: a second \<^verbatim>\<open>Close\<close> after a successful one also reports success. This
  fails: \<^verbatim>\<open>Close\<close> never sets \<^verbatim>\<open>r.fd\<close> to nil, so the second call closes the same
  \<^verbatim>\<open>*os.File\<close> again and returns the error of that.
\<close>

theorem C9_second_Close_fails:
  "fst (MDDataReader_Close scenarioReader) = None
   \<and> fst (MDDataReader_Close (snd (MDDataReader_Close scenarioReader))) \<noteq> None"
  by code_simp

text \<open>
  C9, amended: for every reader whose file is open, the first \<^verbatim>\<open>Close\<close> reports
  success; a second \<^verbatim>\<open>Close\<close> returns (it does not panic), reports \<^verbatim>\<open>os.ErrClosed\<close>
  and leaves the reader as the first one left it, with the file closed and the buffer
  dropped. The same holds for \<^verbatim>\<open>RegionReader.Close\<close>.
\<close>

theorem C9_second_Close_reports_error:
  assumes "fd (fileReader rr) = Some h" and "\<not> closed h"
  shows "MDDataReader_Close (fileReader rr)
           = (None, (fileReader rr)\<lparr>fd := Some (h\<lparr>closed := True\<rparr>), bufferSize := 0,
                                    buffer := None\<rparr>)
         \<and> MDDataReader_Close (snd (MDDataReader_Close (fileReader rr)))
           = (Some ErrClosed, snd (MDDataReader_Close (fileReader rr)))
         \<and> fst (RegionReader_Close rr) = None
         \<and> RegionReader_Close (snd (RegionReader_Close rr))
           = (Some ErrClosed, snd (RegionReader_Close rr))"
  using assms
  by (simp add: RegionReader_Close_def MDDataReader_Close_def os_Close_def split: prod.splits)

theorem C9_witness:
  "fst (RegionReader_Close scenarioRegion) = None
   \<and> RegionReader_Close (snd (RegionReader_Close scenarioRegion))
       = (Some ErrClosed, snd (RegionReader_Close scenarioRegion))"
proof -
  have "fd (fileReader scenarioRegion)
          = Some \<lparr>content = scenarioFile, fpos = 0, closed = False\<rparr>"
    and "\<not> closed \<lparr>content = scenarioFile, fpos = 0, closed = False\<rparr>"
    by (simp_all add: scenarioRegion_def scenarioReader_def)
  from C9_second_Close_reports_error [OF this] show ?thesis by blast
qed

section \<open>No panic in the log-and-drop branches\<close>

text \<open>
  C10: for a reader that \<^verbatim>\<open>NewMDDataReader\<close> constructed, at any later point of its
  life, the header has at least 19 bytes and \<^verbatim>\<open>Read\<close> does not panic on a slice of a
  statement: the branch of the prefix check is never taken (nothing it would log is
  logged), and every line logged by the suffix check carries the last 10 bytes of a
  statement.
\<close>

theorem C10_log_and_drop_branches_safe:
  assumes "NewMDDataReader fs path off = Returns (Inr r0)"
    and "readCalls r0 ns = Returns (rs, r)"
  shows "19 \<le> length (stmtHeader r)
         \<and> MDDataReader_Read r minSize \<noteq> Panics SliceBoundsOutOfRange
         \<and> (\<forall>e\<in>set (logged (MDDataReader_Read r minSize)).
               \<exists>t. e = UnexpectEnd t \<and> length t = 10)"
proof -
  from NewMDDataReader_headerShape [OF assms(1)] readCalls_stmtHeader [OF assms(2)]
  have hs: "headerShape (stmtHeader r)" by simp
  then have "19 \<le> length (stmtHeader r)" by (simp add: headerShape_def)
  moreover from MDDataReader_Read_header [OF hs, of minSize]
  have np: "MDDataReader_Read r minSize \<noteq> Panics SliceBoundsOutOfRange"
    and la: "list_all isEnding10 (logged (MDDataReader_Read r minSize))" by simp_all
  have "\<exists>t. e = UnexpectEnd t \<and> length t = 10"
    if "e \<in> set (logged (MDDataReader_Read r minSize))" for e
  proof -
    from la that have "isEnding10 e" by (simp add: list_all_iff)
    then show ?thesis by (cases e) simp_all
  qed
  ultimately show ?thesis using np by blast
qed

theorem C10_witness:
  "NewMDDataReader (oneFile ''dump.sql'' ''INSERT INTO t VALUES\<newline>(1)\<newline>'') ''dump.sql'' 0
     = Returns (Inr raggedReader)
   \<and> readCalls raggedReader [] = Returns ([], raggedReader)
   \<and> 19 \<le> length (stmtHeader raggedReader)
   \<and> MDDataReader_Read raggedReader 100 \<noteq> Panics SliceBoundsOutOfRange
   \<and> logged (MDDataReader_Read raggedReader 100) = [UnexpectEnd '' VALUES(1)'']"
proof -
  have c: "readCalls raggedReader [] = Returns ([], raggedReader)" by simp
  have l: "logged (MDDataReader_Read raggedReader 100) = [UnexpectEnd '' VALUES(1)'']"
    by code_simp
  from C10_log_and_drop_branches_safe [OF raggedReader_constructed c, of 100]
  have "19 \<le> length (stmtHeader raggedReader)
        \<and> MDDataReader_Read raggedReader 100 \<noteq> Panics SliceBoundsOutOfRange"
    by blast
  with raggedReader_constructed c l show ?thesis by blast
qed

end
